theory Spec2Isabelle
  imports Main "HOL-Library.Multiset"
begin

section \<open>The request handler of jitdi (pkg/handler/handler.go)\<close>

text \<open>
  The handler answers the pull side of the OCI distribution API. A manifest that is not
  on disk is built on demand: the reference \<open>image:tag\<close> is matched against a sorted
  list of rules and the first rule that matches decides the mutation handed to the image
  builder. This theory embeds \<^verbatim>\<open>handler.go\<close> function by function. Code the file only
  calls (the rule package, the image builder, the informer's store, Go's \<^verbatim>\<open>sort\<close> and
  \<^verbatim>\<open>net/http\<close>) is a parameter, collected in the record \<open>env\<close>.
\<close>

subsection \<open>Strings (Go's package strings, as far as the handler calls it)\<close>

text \<open>\<^verbatim>\<open>strings.HasPrefix(s, prefix)\<close>.\<close>

definition strings_HasPrefix :: "string \<Rightarrow> string \<Rightarrow> bool" where
  "strings_HasPrefix s pre = (take (length pre) s = pre)"

text \<open>
  \<^verbatim>\<open>strings.Split(s, "/")\<close>: the substrings between the separators, one more than
  there are separators, so never an empty slice. \<open>cur\<close> holds the current substring,
  reversed. The handler splits at the single byte \<open>/\<close> only.
\<close>

fun split_from :: "char \<Rightarrow> string \<Rightarrow> string \<Rightarrow> string list" where
  "split_from sep cur [] = [rev cur]"
| "split_from sep cur (c # cs) =
     (if c = sep then rev cur # split_from sep [] cs else split_from sep (c # cur) cs)"

definition strings_Split :: "string \<Rightarrow> char \<Rightarrow> string list" where
  "strings_Split s sep = split_from sep [] s"

text \<open>\<^verbatim>\<open>strings.Join(elems, sep)\<close>.\<close>

fun strings_Join :: "string list \<Rightarrow> string \<Rightarrow> string" where
  "strings_Join [] sep = []"
| "strings_Join [x] sep = x"
| "strings_Join (x # y # ys) sep = x @ sep @ strings_Join (y # ys) sep"

text \<open>
  The slice expression \<^verbatim>\<open>parts[lo:hi]\<close>. Go panics unless \<open>lo \<le> hi \<le> len\<close>; the
  handler slices only after checking \<open>len(parts) \<ge> 4\<close>, with \<open>lo = 2\<close> and
  \<open>hi = len(parts) - 2\<close>, so the panic is not a branch of the handler.
\<close>

definition slice :: "'a list \<Rightarrow> nat \<Rightarrow> nat \<Rightarrow> 'a list" where
  "slice xs lo hi = take (hi - lo) (drop lo xs)"

subsection \<open>Errors, files, requests and responses\<close>

text \<open>A Go \<^verbatim>\<open>error\<close> value; \<open>Error_text\<close> is its \<^verbatim>\<open>Error()\<close> method.\<close>

datatype error = Error string

fun Error_text :: "error \<Rightarrow> string" where
  "Error_text (Error msg) = msg"

text \<open>
  A file of the cache directory: its bytes, and what \<^verbatim>\<open>f.Stat()\<close> gives on the open
  file (an error, or the modification time). The file system maps a path to the file
  there; \<^verbatim>\<open>os.Stat\<close> and \<^verbatim>\<open>os.Open\<close> fail on a path with no file.
\<close>

record os_File =
  content :: string
  fstat :: "error + nat"

type_synonym filesystem = "string \<rightharpoonup> os_File"

text \<open>The fields of \<^verbatim>\<open>*http.Request\<close> the handler reads, and the request headers
  that \<^verbatim>\<open>http.ServeFile\<close> and \<^verbatim>\<open>http.ServeContent\<close> read.\<close>

record request =
  Method :: string
  Path :: string
  Header :: "(string \<times> string) list"

text \<open>
  What a handler has written to its \<^verbatim>\<open>http.ResponseWriter\<close>: the status code once
  \<^verbatim>\<open>WriteHeader\<close> ran (\<open>None\<close> before), the header map and the body so far.
\<close>

record response =
  status :: "nat option"
  headers :: "(string \<times> string) list"
  body :: string

definition empty_response :: response where
  "empty_response = \<lparr>status = None, headers = [], body = []\<rparr>"

text \<open>\<^verbatim>\<open>w.Header().Set(k, v)\<close>.\<close>

definition Header_Set :: "string \<Rightarrow> string \<Rightarrow> response \<Rightarrow> response" where
  "Header_Set k v w = w\<lparr>headers := (k, v) # filter (\<lambda>kv. fst kv \<noteq> k) (headers w)\<rparr>"

text \<open>\<^verbatim>\<open>w.WriteHeader(code)\<close>: the first call fixes the status.\<close>

definition WriteHeader :: "nat \<Rightarrow> response \<Rightarrow> response" where
  "WriteHeader code w = (if status w = None then w\<lparr>status := Some code\<rparr> else w)"

text \<open>\<^verbatim>\<open>w.Write(b)\<close>: writes the status 200 first when none was written.\<close>

definition Write :: "string \<Rightarrow> response \<Rightarrow> response" where
  "Write b w = (let w' = WriteHeader 200 w in w'\<lparr>body := body w' @ b\<rparr>)"

text \<open>\<^verbatim>\<open>http.Error(w, msg, code)\<close>: a plain-text reply, the message and a newline.\<close>

definition http_Error :: "response \<Rightarrow> string \<Rightarrow> nat \<Rightarrow> response" where
  "http_Error w msg code =
     Write (msg @ [CHR 0x0A])
       (WriteHeader code
         (Header_Set ''X-Content-Type-Options'' ''nosniff''
           (Header_Set ''Content-Type'' ''text/plain; charset=utf-8'' w)))"

text \<open>\<^verbatim>\<open>http.NotFound(w, r)\<close>.\<close>

definition http_NotFound :: "response \<Rightarrow> response" where
  "http_NotFound w = http_Error w ''404 page not found'' 404"

text \<open>
  \<^verbatim>\<open>path.Base(p)\<close>: the last element of the path, trailing slashes removed first;
  \<open>.\<close> for the empty path and \<open>/\<close> for a path of slashes only.
\<close>

definition path_Base :: "string \<Rightarrow> string" where
  "path_Base p =
     (if p = [] then ''.''
      else (let q = dropWhile (\<lambda>c. c = CHR ''/'') (rev p)
            in if q = [] then ''/'' else rev (takeWhile (\<lambda>c. c \<noteq> CHR ''/'') q)))"

subsection \<open>The collaborators the handler calls\<close>

text \<open>
  A cluster object \<^verbatim>\<open>*v1alpha1.Image\<close>: its name and its \<^verbatim>\<open>Spec\<close>, the same
  \<^verbatim>\<open>ImageSpec\<close> a static configuration entry is.
\<close>

record 'o Image =
  Name :: string
  Spec :: 'o

text \<open>
  The code outside \<^verbatim>\<open>handler.go\<close>, taken as parameters. \<open>'r\<close> is \<^verbatim>\<open>*pattern.Rule\<close>,
  \<open>'m\<close> the mutation a rule yields, \<open>'o\<close> an \<^verbatim>\<open>ImageSpec\<close> and \<open>'b\<close> the
  \<^verbatim>\<open>*imageBuilder\<close>.
  \<^item> \<open>NewRule\<close>, \<open>LessThan\<close>, \<open>Match\<close>: package \<^verbatim>\<open>pattern\<close>; \<open>Match\<close> returns the
    mutation and whether the rule matched.
  \<^item> \<open>sort_Slice less xs\<close>: Go's \<^verbatim>\<open>sort.Slice\<close> with the comparison
    \<^verbatim>\<open>func(i, j) bool { return less(xs[i], xs[j]) }\<close>.
  \<^item> \<open>newImageBuilder\<close>, \<open>Build\<close>, \<open>BlobsPath\<close>, \<open>ManifestPath\<close>: the image builder;
    \<open>Build\<close> may write files and returns its error, if any.
  \<^item> \<open>decode_mediaType\<close>: \<^verbatim>\<open>json.NewDecoder(f).Decode(&mediaType)\<close> on a file's bytes.
  \<^item> \<open>ServeFile\<close>, \<open>ServeContent\<close>: package \<^verbatim>\<open>net/http\<close>.
\<close>

record ('r, 'm, 'o, 'b) env =
  NewRule :: "'o \<Rightarrow> error + 'r"
  LessThan :: "'r \<Rightarrow> 'r \<Rightarrow> bool"
  Match :: "'r \<Rightarrow> string \<Rightarrow> 'm \<times> bool"
  sort_Slice :: "('r \<Rightarrow> 'r \<Rightarrow> bool) \<Rightarrow> 'r list \<Rightarrow> 'r list"
  newImageBuilder :: "string \<Rightarrow> error + 'b"
  Build :: "'b \<Rightarrow> string \<Rightarrow> 'm \<Rightarrow> filesystem \<Rightarrow> error option \<times> filesystem"
  BlobsPath :: "'b \<Rightarrow> string \<Rightarrow> string"
  ManifestPath :: "'b \<Rightarrow> string \<Rightarrow> string \<Rightarrow> string"
  decode_mediaType :: "string \<Rightarrow> error + string"
  ServeFile :: "response \<Rightarrow> request \<Rightarrow> filesystem \<Rightarrow> string \<Rightarrow> response"
  ServeContent :: "response \<Rightarrow> request \<Rightarrow> string \<Rightarrow> nat \<Rightarrow> string \<Rightarrow> response"

subsection \<open>The handler and the world around it\<close>

text \<open>
  \<^verbatim>\<open>type Handler struct\<close>. \<open>buildMutex\<close> maps a reference to the address of its
  \<^verbatim>\<open>sync.RWMutex\<close>; \<open>cr\<close> is \<open>None\<close> for the nil slice; \<open>store\<close> is \<open>None\<close> while
  \<^verbatim>\<open>h.store\<close> is nil and otherwise holds what \<^verbatim>\<open>h.store.List()\<close> returns now;
  \<open>clientset\<close> tells whether the clientset is non-nil. The mutex \<^verbatim>\<open>crMut\<close> is held over
  the whole of \<^verbatim>\<open>resetCR\<close> and over the cache path of \<^verbatim>\<open>getRules\<close>; both are one
  step each here.
\<close>

record ('r, 'o, 'b) Handler =
  buildMutex :: "string \<rightharpoonup> nat"
  image_b :: 'b
  rules :: "'r list"
  cr :: "'r list option"
  store :: "'o Image list option"
  clientset :: bool

text \<open>
  A \<^verbatim>\<open>sync.RWMutex\<close>: whether a writer holds it, whether a writer has called
  \<^verbatim>\<open>Lock\<close> and waits there for the readers to leave, and how many readers hold it.
\<close>

record RWMutex =
  writer :: bool
  waiting :: bool
  readers :: nat

definition new_RWMutex :: RWMutex where
  "new_RWMutex = \<lparr>writer = False, waiting = False, readers = 0\<rparr>"

text \<open>
  What the handler does, in order: a call of \<^verbatim>\<open>getRules\<close>, a listing of the store, a
  call of a rule's \<open>Match\<close>, a call of the builder's \<open>Build\<close> with what it returned, a
  line logged by \<^verbatim>\<open>slog.Error\<close>.
\<close>

datatype ('r, 'm) event =
    Ev_getRules
  | Ev_List
  | Ev_Match 'r string
  | Ev_Build string 'm "error option"
  | Ev_Log string error

text \<open>
  The world: the heap of mutexes (by address, with the next free address), the files of
  the cache directory and the trace of events so far.
\<close>

record ('r, 'm) world =
  mutexes :: "nat \<Rightarrow> RWMutex"
  nextMutex :: nat
  files :: filesystem
  trace :: "('r, 'm) event list"

definition log_Error :: "string \<Rightarrow> error \<Rightarrow> ('r, 'm) world \<Rightarrow> ('r, 'm) world" where
  "log_Error msg err wd = wd\<lparr>trace := trace wd @ [Ev_Log msg err]\<rparr>"

subsection \<open>Construction and the rule cache\<close>

text \<open>The first loop of \<^verbatim>\<open>NewHandler\<close>: the first rule that fails to convert is the
  error returned.\<close>

fun config_rules :: "('r, 'm, 'o, 'b) env \<Rightarrow> 'o list \<Rightarrow> 'r list \<Rightarrow> error + 'r list" where
  "config_rules env [] acc = Inr acc"
| "config_rules env (c # config) acc =
     (case NewRule env c of
        Inl err \<Rightarrow> Inl err
      | Inr r \<Rightarrow> config_rules env config (acc @ [r]))"

text \<open>
  \<^verbatim>\<open>NewHandler(cache, config, clientset)\<close>. The goroutine \<^verbatim>\<open>h.start\<close> it launches when
  the clientset is non-nil runs later; see \<open>informer\<close>.
\<close>

definition NewHandler ::
  "('r, 'm, 'o, 'b) env \<Rightarrow> string \<Rightarrow> 'o list \<Rightarrow> bool \<Rightarrow> error + ('r, 'o, 'b) Handler" where
  "NewHandler env cache config cs =
     (case config_rules env config [] of
        Inl err \<Rightarrow> Inl err
      | Inr rs \<Rightarrow>
          (case newImageBuilder env cache of
             Inl err \<Rightarrow> Inl err
           | Inr builder \<Rightarrow>
               Inr \<lparr>buildMutex = Map.empty, image_b = builder,
                    rules = sort_Slice env (LessThan env) rs,
                    cr = None, store = None, clientset = cs\<rparr>))"

text \<open>
  \<^verbatim>\<open>h.start\<close> stores the informer's store in \<^verbatim>\<open>h.store\<close>; from then on the informer
  changes what the store lists. \<open>informer objs\<close> is that assignment, or a later change of
  the listing to \<open>objs\<close>.
\<close>

definition informer :: "'o Image list \<Rightarrow> ('r, 'o, 'b) Handler \<Rightarrow> ('r, 'o, 'b) Handler" where
  "informer objs h = h\<lparr>store := Some objs\<rparr>"

text \<open>\<^verbatim>\<open>h.resetCR()\<close>.\<close>

definition resetCR :: "('r, 'o, 'b) Handler \<Rightarrow> ('r, 'o, 'b) Handler" where
  "resetCR h = h\<lparr>cr := None\<rparr>"

text \<open>
  The loop of \<^verbatim>\<open>getRules\<close> over the listed objects: an object that fails to convert is
  logged and skipped, the others are appended.
\<close>

fun convert_items ::
  "('r, 'm, 'o, 'b) env \<Rightarrow> 'o Image list \<Rightarrow> 'r list \<Rightarrow> ('r, 'm) world \<Rightarrow> 'r list \<times> ('r, 'm) world" where
  "convert_items env [] acc wd = (acc, wd)"
| "convert_items env (item # list) acc wd =
     (case NewRule env (Spec item) of
        Inl err \<Rightarrow> convert_items env list acc (log_Error ''newImageRule'' err wd)
      | Inr r \<Rightarrow> convert_items env list (acc @ [r]) wd)"

text \<open>\<^verbatim>\<open>h.getRules()\<close>: the rules, and the handler and the world after the call.\<close>

definition getRules ::
  "('r, 'm, 'o, 'b) env \<Rightarrow> ('r, 'o, 'b) Handler \<Rightarrow> ('r, 'm) world \<Rightarrow>
     'r list \<times> ('r, 'o, 'b) Handler \<times> ('r, 'm) world" where
  "getRules env h wd =
     (let wd0 = wd\<lparr>trace := trace wd @ [Ev_getRules]\<rparr> in
      case store h of
        None \<Rightarrow> (rules h, h, wd0)
      | Some list \<Rightarrow>
          (case cr h of
             Some cached \<Rightarrow> (cached, h, wd0)
           | None \<Rightarrow>
               (let (merged, wd1) =
                      convert_items env list (rules h) (wd0\<lparr>trace := trace wd0 @ [Ev_List]\<rparr>);
                    sorted_cr = sort_Slice env (LessThan env) merged
                in (sorted_cr, h\<lparr>cr := Some sorted_cr\<rparr>, wd1))))"

subsection \<open>The build coordinator\<close>

text \<open>
  The loop of \<^verbatim>\<open>build\<close> over the rules: each rule is asked in turn; the first that
  matches has its mutation built, and the loop ends there with the builder's error, if
  any. With no match the result is no error.
\<close>

fun match_rules ::
  "('r, 'm, 'o, 'b) env \<Rightarrow> 'b \<Rightarrow> string \<Rightarrow> 'r list \<Rightarrow> ('r, 'm) world \<Rightarrow>
     error option \<times> ('r, 'm) world" where
  "match_rules env b ref [] wd = (None, wd)"
| "match_rules env b ref (rule # rs) wd =
     (let (mutates, ok) = Match env rule ref;
          wd1 = wd\<lparr>trace := trace wd @ [Ev_Match rule ref]\<rparr>
      in if ok
         then (let (err, fs) = Build env b ref mutates (files wd1)
               in (err, wd1\<lparr>files := fs, trace := trace wd1 @ [Ev_Build ref mutates err]\<rparr>))
         else match_rules env b ref rs wd1)"

text \<open>
  Lines 207 to 218 of \<^verbatim>\<open>build\<close> with no other goroutine between them:
  \<^verbatim>\<open>getRules\<close>, then the loop over the list it returned.
\<close>

definition build_locked ::
  "('r, 'm, 'o, 'b) env \<Rightarrow> string \<Rightarrow> ('r, 'o, 'b) Handler \<Rightarrow> ('r, 'm) world \<Rightarrow>
     error option \<times> ('r, 'o, 'b) Handler \<times> ('r, 'm) world" where
  "build_locked env ref h wd =
     (let (rs, h1, wd1) = getRules env h wd;
          (err, wd2) = match_rules env (image_b h1) ref rs wd1
      in (err, h1, wd2))"

text \<open>
  A call of \<^verbatim>\<open>build(image, tag)\<close> in progress. Other goroutines run between its calls
  of \<^verbatim>\<open>LoadOrStore\<close>, of the mutex, of \<^verbatim>\<open>getRules\<close> and of \<^verbatim>\<open>Delete\<close>, so the call
  is a small machine with the program point it stands before:
  \<^item> \<open>At_LoadOrStore\<close>: line 194, with \<open>ref\<close> computed;
  \<^item> \<open>At_RLock\<close>, \<open>At_RUnlock\<close>: lines 196 and 197 to 198 (the deferred \<^verbatim>\<open>RUnlock\<close>
    runs at the \<^verbatim>\<open>return nil\<close>), the path of a call that found an entry;
  \<^item> \<open>At_Lock\<close>: line 201, before the call of \<^verbatim>\<open>Lock\<close>; \<open>In_Lock\<close>: inside it, the
    writer announced and waiting for the readers to leave; \<open>At_getRules\<close>: line 207;
    \<open>At_Loop\<close>: lines 208 to 218; \<open>At_Delete\<close> and \<open>At_Unlock\<close>: the deferred
    function, lines 203 and 204; the path of the call that stored the entry;
  \<^item> \<open>Returned\<close>: the call has returned \<open>ret\<close>.
  \<open>mut\<close> and \<open>ok\<close> are the two results of \<^verbatim>\<open>LoadOrStore\<close>, and \<open>rules_l\<close> is the
  local variable \<^verbatim>\<open>rules\<close> of line 207 (the nil slice before). \<^verbatim>\<open>getRules\<close> is one
  step, since it reads and writes the cache under \<^verbatim>\<open>crMut\<close>; the loop is one step,
  since it reads only the list it got, and what \<open>Build\<close> does is the builder's.
\<close>

datatype ppoint =
    At_LoadOrStore | At_RLock | At_RUnlock | At_Lock | In_Lock | At_getRules | At_Loop
  | At_Delete | At_Unlock | Returned

record 'r call =
  arg_image :: string
  arg_tag :: string
  pc :: ppoint
  mut :: nat
  ok :: bool
  rules_l :: "'r list"
  ret :: "error option"

definition new_call :: "string \<Rightarrow> string \<Rightarrow> 'r call" where
  "new_call img tag =
     \<lparr>arg_image = img, arg_tag = tag, pc = At_LoadOrStore, mut = 0, ok = False,
      rules_l = [], ret = None\<rparr>"

text \<open>\<^verbatim>\<open>ref := image + ":" + tag\<close>.\<close>

definition ref_of :: "string \<Rightarrow> string \<Rightarrow> string" where
  "ref_of img tag = img @ '':'' @ tag"

text \<open>
  Modelled from the spec: \<^verbatim>\<open>atomic.SyncMap\<close> (package \<^verbatim>\<open>pkg/atomic\<close>, not among the
  sources) is the build lock registry of the specification, whose \<^verbatim>\<open>LoadOrStore\<close> is
  the atomic test-and-set "create-if-absent, tell caller whether it was the creator":
  it returns the value already stored under the key and \<open>True\<close>, or stores the given
  value and returns it and \<open>False\<close>. Its \<^verbatim>\<open>Delete\<close> removes the entry of the key.
\<close>

definition LoadOrStore ::
  "(string \<rightharpoonup> nat) \<Rightarrow> string \<Rightarrow> nat \<Rightarrow> (nat \<times> bool) \<times> (string \<rightharpoonup> nat)" where
  "LoadOrStore m k v =
     (case m k of
        Some old \<Rightarrow> ((old, True), m)
      | None \<Rightarrow> ((v, False), m(k \<mapsto> v)))"

text \<open>
  The operations of \<^verbatim>\<open>sync.RWMutex\<close>, as Go's library documents them. \<^verbatim>\<open>Lock\<close> has
  two parts, and other goroutines run between them: the writer first excludes the other
  writers and announces itself (\<open>rw_Lock_announce\<close>, which cannot return while another
  writer holds the mutex or waits for it), then waits until the readers that hold the
  mutex have left (\<open>rw_Lock_acquire\<close>). \<^verbatim>\<open>RLock\<close> cannot return while a writer holds
  the mutex or has announced itself: "if any goroutine calls Lock while the lock is
  already held by one or more readers, concurrent calls to RLock will block until the
  writer has acquired (and released) the lock". For these three, \<open>None\<close> is a call that
  cannot return now. For \<^verbatim>\<open>Unlock\<close> and \<^verbatim>\<open>RUnlock\<close>, \<open>None\<close> is the fatal error of
  unlocking a mutex that is not locked, which stops the process: no goroutine takes a
  step after it.
\<close>

definition rw_Lock_announce :: "RWMutex \<Rightarrow> RWMutex option" where
  "rw_Lock_announce m = (if writer m \<or> waiting m then None else Some (m\<lparr>waiting := True\<rparr>))"

definition rw_Lock_acquire :: "RWMutex \<Rightarrow> RWMutex option" where
  "rw_Lock_acquire m =
     (if 0 < readers m then None else Some (m\<lparr>writer := True, waiting := False\<rparr>))"

definition rw_Unlock :: "RWMutex \<Rightarrow> RWMutex option" where
  "rw_Unlock m = (if writer m then Some (m\<lparr>writer := False\<rparr>) else None)"

definition rw_RLock :: "RWMutex \<Rightarrow> RWMutex option" where
  "rw_RLock m =
     (if writer m \<or> waiting m then None else Some (m\<lparr>readers := Suc (readers m)\<rparr>))"

definition rw_RUnlock :: "RWMutex \<Rightarrow> RWMutex option" where
  "rw_RUnlock m = (if 0 < readers m then Some (m\<lparr>readers := readers m - 1\<rparr>) else None)"

text \<open>
  One step of a call of \<^verbatim>\<open>build\<close>, from the program point it stands before to the
  next; \<open>None\<close> when the call waits for a mutex, has returned, or unlocks a mutex that
  is not locked. The step at \<open>At_LoadOrStore\<close> allocates the \<^verbatim>\<open>&sync.RWMutex{}\<close> it
  passes, stored or not.
\<close>

definition call_step ::
  "('r, 'm, 'o, 'b) env \<Rightarrow> 'r call \<Rightarrow> ('r, 'o, 'b) Handler \<Rightarrow> ('r, 'm) world \<Rightarrow>
     ('r call \<times> ('r, 'o, 'b) Handler \<times> ('r, 'm) world) option" where
  "call_step env c h wd =
     (let ref = ref_of (arg_image c) (arg_tag c) in
      case pc c of
        At_LoadOrStore \<Rightarrow>
          (let new = nextMutex wd;
               wd1 = wd\<lparr>mutexes := (mutexes wd)(new := new_RWMutex), nextMutex := Suc new\<rparr>;
               ((m, loaded), reg) = LoadOrStore (buildMutex h) ref new
           in Some (c\<lparr>pc := (if loaded then At_RLock else At_Lock), mut := m, ok := loaded\<rparr>,
                    h\<lparr>buildMutex := reg\<rparr>, wd1))
      | At_RLock \<Rightarrow>
          (case rw_RLock (mutexes wd (mut c)) of
             None \<Rightarrow> None
           | Some m \<Rightarrow> Some (c\<lparr>pc := At_RUnlock\<rparr>, h, wd\<lparr>mutexes := (mutexes wd)(mut c := m)\<rparr>))
      | At_RUnlock \<Rightarrow>
          (case rw_RUnlock (mutexes wd (mut c)) of
             None \<Rightarrow> None
           | Some m \<Rightarrow>
               Some (c\<lparr>pc := Returned, ret := None\<rparr>, h, wd\<lparr>mutexes := (mutexes wd)(mut c := m)\<rparr>))
      | At_Lock \<Rightarrow>
          (case rw_Lock_announce (mutexes wd (mut c)) of
             None \<Rightarrow> None
           | Some m \<Rightarrow> Some (c\<lparr>pc := In_Lock\<rparr>, h, wd\<lparr>mutexes := (mutexes wd)(mut c := m)\<rparr>))
      | In_Lock \<Rightarrow>
          (case rw_Lock_acquire (mutexes wd (mut c)) of
             None \<Rightarrow> None
           | Some m \<Rightarrow>
               Some (c\<lparr>pc := At_getRules\<rparr>, h, wd\<lparr>mutexes := (mutexes wd)(mut c := m)\<rparr>))
      | At_getRules \<Rightarrow>
          (let (rs, h1, wd1) = getRules env h wd
           in Some (c\<lparr>pc := At_Loop, rules_l := rs\<rparr>, h1, wd1))
      | At_Loop \<Rightarrow>
          (let (err, wd1) = match_rules env (image_b h) ref (rules_l c) wd
           in Some (c\<lparr>pc := At_Delete, ret := err\<rparr>, h, wd1))
      | At_Delete \<Rightarrow>
          Some (c\<lparr>pc := At_Unlock\<rparr>, h\<lparr>buildMutex := (buildMutex h)(ref := None)\<rparr>, wd)
      | At_Unlock \<Rightarrow>
          (case rw_Unlock (mutexes wd (mut c)) of
             None \<Rightarrow> None
           | Some m \<Rightarrow> Some (c\<lparr>pc := Returned\<rparr>, h, wd\<lparr>mutexes := (mutexes wd)(mut c := m)\<rparr>))
      | Returned \<Rightarrow> None)"

text \<open>
  A call that runs with no other goroutine between its steps: up to \<open>n\<close> steps, until it
  has returned. \<open>None\<close> is a call that waits for a mutex nobody will release.
\<close>

fun run_alone ::
  "('r, 'm, 'o, 'b) env \<Rightarrow> nat \<Rightarrow> 'r call \<Rightarrow> ('r, 'o, 'b) Handler \<Rightarrow> ('r, 'm) world \<Rightarrow>
     (error option \<times> ('r, 'o, 'b) Handler \<times> ('r, 'm) world) option" where
  "run_alone env 0 c h wd = (if pc c = Returned then Some (ret c, h, wd) else None)"
| "run_alone env (Suc k) c h wd =
     (if pc c = Returned then Some (ret c, h, wd)
      else (case call_step env c h wd of
              None \<Rightarrow> None
            | Some (c1, h1, wd1) \<Rightarrow> run_alone env k c1 h1 wd1))"

text \<open>
  \<^verbatim>\<open>h.build(image, tag)\<close> as the request handler calls it: the call, run to its return.
  The longer path, of the call that stores the entry, takes seven steps.
\<close>

definition build ::
  "('r, 'm, 'o, 'b) env \<Rightarrow> string \<Rightarrow> string \<Rightarrow> ('r, 'o, 'b) Handler \<Rightarrow> ('r, 'm) world \<Rightarrow>
     (error option \<times> ('r, 'o, 'b) Handler \<times> ('r, 'm) world) option" where
  "build env img tag h wd = run_alone env 7 (new_call img tag) h wd"

subsection \<open>Serving\<close>

text \<open>\<^verbatim>\<open>serveManifest(w, r, manifestPath)\<close>.\<close>

definition serveManifest ::
  "('r, 'm, 'o, 'b) env \<Rightarrow> response \<Rightarrow> request \<Rightarrow> string \<Rightarrow> ('r, 'm) world \<Rightarrow>
     response \<times> ('r, 'm) world" where
  "serveManifest env w r manifestPath wd =
     (case files wd manifestPath of
        None \<Rightarrow> (http_NotFound w, wd)
      | Some f \<Rightarrow>
          (case decode_mediaType env (content f) of
             Inl err \<Rightarrow> (http_Error w (Error_text err) 500, log_Error ''json.Decode'' err wd)
           | Inr mediaType \<Rightarrow>
               (case fstat f of
                  Inl err \<Rightarrow> (http_Error w (Error_text err) 500, log_Error ''Stat'' err wd)
                | Inr modTime \<Rightarrow>
                    (ServeContent env (Header_Set ''Content-Type'' mediaType w) r
                       (path_Base (Path r)) modTime (content f), wd))))"

text \<open>\<^verbatim>\<open>h.blobs(w, r, image, hash)\<close>.\<close>

definition blobs ::
  "('r, 'm, 'o, 'b) env \<Rightarrow> response \<Rightarrow> request \<Rightarrow> string \<Rightarrow> string \<Rightarrow>
     ('r, 'o, 'b) Handler \<Rightarrow> ('r, 'm) world \<Rightarrow> response" where
  "blobs env w r img hash h wd = ServeFile env w r (files wd) (BlobsPath env (image_b h) hash)"

text \<open>
  \<^verbatim>\<open>h.manifests(w, r, image, tag)\<close>. \<^verbatim>\<open>os.Stat\<close> fails where the path has no file.
  The result is \<open>None\<close> when the call of \<open>build\<close> does not return.
\<close>

definition manifests ::
  "('r, 'm, 'o, 'b) env \<Rightarrow> response \<Rightarrow> request \<Rightarrow> string \<Rightarrow> string \<Rightarrow>
     ('r, 'o, 'b) Handler \<Rightarrow> ('r, 'm) world \<Rightarrow>
     (response \<times> ('r, 'o, 'b) Handler \<times> ('r, 'm) world) option" where
  "manifests env w r img tag h wd =
     (if strings_HasPrefix tag ''sha256:''
      then (let (w1, wd1) = serveManifest env w r (BlobsPath env (image_b h) tag) wd
            in Some (w1, h, wd1))
      else (let manifestPath = ManifestPath env (image_b h) img tag in
            case files wd manifestPath of
              Some f \<Rightarrow>
                (let (w1, wd1) = serveManifest env w r (ManifestPath env (image_b h) img tag) wd
                 in Some (w1, h, wd1))
            | None \<Rightarrow>
                (case build env img tag h wd of
                   None \<Rightarrow> None
                 | Some (Some err, h1, wd1) \<Rightarrow>
                     Some (http_Error w (Error_text err) 500, h1, log_Error ''image.Build'' err wd1)
                 | Some (None, h1, wd1) \<Rightarrow>
                     (let (w1, wd2) = serveManifest env w r (ManifestPath env (image_b h1) img tag) wd1
                      in Some (w1, h1, wd2)))))"

text \<open>\<^verbatim>\<open>h.ServeHTTP(w, r)\<close>. A type that is neither \<open>blobs\<close> nor \<open>manifests\<close> falls
  through the \<^verbatim>\<open>switch\<close>.\<close>

definition ServeHTTP ::
  "('r, 'm, 'o, 'b) env \<Rightarrow> response \<Rightarrow> request \<Rightarrow> ('r, 'o, 'b) Handler \<Rightarrow> ('r, 'm) world \<Rightarrow>
     (response \<times> ('r, 'o, 'b) Handler \<times> ('r, 'm) world) option" where
  "ServeHTTP env w r h wd =
     (if Method r \<noteq> ''GET'' \<and> Method r \<noteq> ''HEAD''
      then Some (http_Error w ''method not allowed'' 405, h, wd)
      else if \<not> strings_HasPrefix (Path r) ''/v2/''
      then Some (http_Error w ''not found'' 404, h, wd)
      else if Path r = ''/v2/''
      then Some (Write ''ok'' w, h, wd)
      else (let parts = strings_Split (Path r) (CHR ''/'') in
            if length parts < 4
            then Some (http_Error w ''not found'' 404, h, wd)
            else (let img = strings_Join (slice parts 2 (length parts - 2)) ''/'';
                      typ = parts ! (length parts - 2)
                  in if typ = ''blobs''
                     then Some (blobs env w r img (parts ! (length parts - 1)) h wd, h, wd)
                     else if typ = ''manifests''
                     then manifests env w r img (parts ! (length parts - 1)) h wd
                     else Some (w, h, wd))))"

subsection \<open>Goroutines\<close>

text \<open>
  The handler shared by the calls of \<^verbatim>\<open>build\<close> in progress, one per request goroutine
  that reached it, and the world. An action is a step of one call, a run of
  \<^verbatim>\<open>resetCR\<close> by the informer's goroutine, or a change of what the store lists.
\<close>

record ('r, 'm, 'o, 'b) system =
  handler :: "('r, 'o, 'b) Handler"
  wld :: "('r, 'm) world"
  calls :: "'r call list"

datatype 'o action = Run nat | Reset | Informer "'o Image list"

definition sys_step ::
  "('r, 'm, 'o, 'b) env \<Rightarrow> 'o action \<Rightarrow> ('r, 'm, 'o, 'b) system \<Rightarrow> ('r, 'm, 'o, 'b) system option" where
  "sys_step env a s =
     (case a of
        Run t \<Rightarrow>
          (if t < length (calls s)
           then (case call_step env (calls s ! t) (handler s) (wld s) of
                   None \<Rightarrow> None
                 | Some (c1, h1, wd1) \<Rightarrow>
                     Some \<lparr>handler = h1, wld = wd1, calls = (calls s)[t := c1]\<rparr>)
           else None)
      | Reset \<Rightarrow> Some (s\<lparr>handler := resetCR (handler s)\<rparr>)
      | Informer objs \<Rightarrow>
          (if clientset (handler s) then Some (s\<lparr>handler := informer objs (handler s)\<rparr>)
           else None))"

text \<open>A schedule is a list of actions; it runs as long as each action can.\<close>

fun run :: "('r, 'm, 'o, 'b) env \<Rightarrow> 'o action list \<Rightarrow> ('r, 'm, 'o, 'b) system \<Rightarrow>
    ('r, 'm, 'o, 'b) system option" where
  "run env [] s = Some s"
| "run env (a # as) s =
     (case sys_step env a s of
        None \<Rightarrow> None
      | Some s1 \<Rightarrow> run env as s1)"

text \<open>
  The initial system: requests for the given (image, tag) pairs have each just entered
  \<^verbatim>\<open>build\<close>. A request that arrives later is a call whose first step comes later in
  the schedule.
\<close>

definition start_calls ::
  "('r, 'o, 'b) Handler \<Rightarrow> ('r, 'm) world \<Rightarrow> (string \<times> string) list \<Rightarrow> ('r, 'm, 'o, 'b) system" where
  "start_calls h wd reqs =
     \<lparr>handler = h, wld = wd, calls = map (\<lambda>(img, tag). new_call img tag) reqs\<rparr>"

subsection \<open>Reading a trace\<close>

text \<open>The calls of \<open>Build\<close> in a trace, in order: the reference and the mutation.\<close>

fun builds :: "('r, 'm) event list \<Rightarrow> (string \<times> 'm) list" where
  "builds [] = []"
| "builds (Ev_Build ref m err # tr) = (ref, m) # builds tr"
| "builds (e # tr) = builds tr"

text \<open>The rules whose \<open>Match\<close> was called, in order.\<close>

fun consulted :: "('r, 'm) event list \<Rightarrow> 'r list" where
  "consulted [] = []"
| "consulted (Ev_Match r ref # tr) = r # consulted tr"
| "consulted (e # tr) = consulted tr"

text \<open>The trace without its log lines: the calls of \<^verbatim>\<open>getRules\<close>, of the store's
  listing, of \<open>Match\<close> and of \<open>Build\<close>.\<close>

fun is_Log :: "('r, 'm) event \<Rightarrow> bool" where
  "is_Log (Ev_Log msg err) = True"
| "is_Log e = False"

definition calls_in :: "('r, 'm) event list \<Rightarrow> ('r, 'm) event list" where
  "calls_in tr = filter (\<lambda>e. \<not> is_Log e) tr"

text \<open>What is looked at in a state of the goroutines: where each call stands, what it
  returned, and the calls of \<open>Build\<close> so far.\<close>

definition observe ::
  "('r, 'm, 'o, 'b) system \<Rightarrow> ppoint list \<times> error option list \<times> (string \<times> 'm) list" where
  "observe s = (map pc (calls s), map ret (calls s), builds (trace (wld s)))"

subsection \<open>What the specification's words say\<close>

text \<open>
  The first rule of a list, in its order, whose match predicate accepts the reference.
\<close>

definition first_match :: "('r, 'm, 'o, 'b) env \<Rightarrow> string \<Rightarrow> 'r list \<Rightarrow> 'r option" where
  "first_match env ref rs = find (\<lambda>r. snd (Match env r ref)) rs"

text \<open>The rules converted from the well-formed objects of a listing, in its order, and
  the errors of the others.\<close>

fun well_formed_rules :: "('r, 'm, 'o, 'b) env \<Rightarrow> 'o Image list \<Rightarrow> 'r list" where
  "well_formed_rules env [] = []"
| "well_formed_rules env (item # list) =
     (case NewRule env (Spec item) of
        Inl err \<Rightarrow> well_formed_rules env list
      | Inr r \<Rightarrow> r # well_formed_rules env list)"

fun conversion_errors :: "('r, 'm, 'o, 'b) env \<Rightarrow> 'o Image list \<Rightarrow> error list" where
  "conversion_errors env [] = []"
| "conversion_errors env (item # list) =
     (case NewRule env (Spec item) of
        Inl err \<Rightarrow> err # conversion_errors env list
      | Inr r \<Rightarrow> conversion_errors env list)"

subsection \<open>Sorting\<close>

text \<open>
  \<^verbatim>\<open>sort.Slice\<close> is Go's library: it is a parameter here, and what is assumed of it is
  what its documentation promises for a comparison that orders the elements. The result
  holds the elements of the input, each as often, and no element comes before one that
  the comparison puts before it. The documentation adds that the sort is not guaranteed
  to be stable; what Go's implementation does with elements that compare equal is the
  subject of the next subsection.
\<close>

definition precedence_sorted :: "('r, 'm, 'o, 'b) env \<Rightarrow> 'r list \<Rightarrow> bool" where
  "precedence_sorted env rs = sorted_wrt (\<lambda>a b. \<not> LessThan env b a) rs"

definition sort_Slice_sorts :: "('r, 'm, 'o, 'b) env \<Rightarrow> bool" where
  "sort_Slice_sorts env =
     (\<forall>xs. mset (sort_Slice env (LessThan env) xs) = mset xs
           \<and> precedence_sorted env (sort_Slice env (LessThan env) xs))"

text \<open>
  Stable tie-breaking, in the claim's words: the rules that compare equal to a rule of
  the input stand in the output in the same relative order as in the input.
\<close>

definition ties_in_input_order :: "('r, 'm, 'o, 'b) env \<Rightarrow> 'r list \<Rightarrow> 'r list \<Rightarrow> bool" where
  "ties_in_input_order env input output =
     (\<forall>x\<in>set input.
        filter (\<lambda>y. \<not> LessThan env x y \<and> \<not> LessThan env y x) output
          = filter (\<lambda>y. \<not> LessThan env x y \<and> \<not> LessThan env y x) input)"

text \<open>What holds of the handler's two rule lists at any time: both are sorted.\<close>

definition lists_sorted :: "('r, 'm, 'o, 'b) env \<Rightarrow> ('r, 'o, 'b) Handler \<Rightarrow> bool" where
  "lists_sorted env h =
     (precedence_sorted env (rules h)
      \<and> (case cr h of None \<Rightarrow> True | Some cached \<Rightarrow> precedence_sorted env cached))"

subsection \<open>Go's sort.Slice\<close>

text \<open>
  What \<^verbatim>\<open>sort.Slice\<close> does in the Go releases that can build the handler (it imports
  \<^verbatim>\<open>log/slog\<close>, so Go 1.21 or later): pattern-defeating quicksort, the functions of
  \<^verbatim>\<open>sort/zsortfunc.go\<close> under their names there. The slice is the list, an index is a
  Go \<^verbatim>\<open>int\<close>, \<^verbatim>\<open>data.Less(i, j)\<close> is the comparison of the elements at \<open>i\<close> and \<open>j\<close>,
  and \<^verbatim>\<open>data.Swap(i, j)\<close> exchanges them. Every index the code uses lies in the slice.
\<close>

definition data_Less :: "('a \<Rightarrow> 'a \<Rightarrow> bool) \<Rightarrow> 'a list \<Rightarrow> int \<Rightarrow> int \<Rightarrow> bool" where
  "data_Less lt xs i j = lt (xs ! nat i) (xs ! nat j)"

definition data_Swap :: "'a list \<Rightarrow> int \<Rightarrow> int \<Rightarrow> 'a list" where
  "data_Swap xs i j = xs[nat i := xs ! nat j, nat j := xs ! nat i]"

text \<open>
  \<^verbatim>\<open>insertionSort_func(data, a, b)\<close>: the inner loop,
  \<^verbatim>\<open>for j := i; j > a && data.Less(j, j-1); j-- { data.Swap(j, j-1) }\<close>, and the outer
  loop, \<^verbatim>\<open>for i := a + 1; i < b; i++\<close>.
\<close>

function insertionSort_inner :: "('a \<Rightarrow> 'a \<Rightarrow> bool) \<Rightarrow> int \<Rightarrow> int \<Rightarrow> 'a list \<Rightarrow> 'a list" where
  "insertionSort_inner lt a j xs =
     (if a < j \<and> data_Less lt xs j (j - 1)
      then insertionSort_inner lt a (j - 1) (data_Swap xs j (j - 1))
      else xs)"
  by pat_completeness auto
termination by (relation "measure (\<lambda>(lt, a, j, xs). nat (j - a))") auto

declare insertionSort_inner.simps [simp del]

function insertionSort_outer ::
  "('a \<Rightarrow> 'a \<Rightarrow> bool) \<Rightarrow> int \<Rightarrow> int \<Rightarrow> int \<Rightarrow> 'a list \<Rightarrow> 'a list" where
  "insertionSort_outer lt a b i xs =
     (if i < b then insertionSort_outer lt a b (i + 1) (insertionSort_inner lt a i xs) else xs)"
  by pat_completeness auto
termination by (relation "measure (\<lambda>(lt, a, b, i, xs). nat (b - i))") auto

declare insertionSort_outer.simps [simp del]

definition insertionSort_func :: "('a \<Rightarrow> 'a \<Rightarrow> bool) \<Rightarrow> 'a list \<Rightarrow> int \<Rightarrow> int \<Rightarrow> 'a list" where
  "insertionSort_func lt xs a b = insertionSort_outer lt a b (a + 1) xs"

text \<open>
  \<^verbatim>\<open>order2_func\<close>, \<^verbatim>\<open>median_func\<close> and \<^verbatim>\<open>medianAdjacent_func\<close>, with the counter
  \<^verbatim>\<open>*swaps\<close> passed and returned.
\<close>

definition order2_func ::
  "('a \<Rightarrow> 'a \<Rightarrow> bool) \<Rightarrow> 'a list \<Rightarrow> int \<Rightarrow> int \<Rightarrow> nat \<Rightarrow> int \<times> int \<times> nat" where
  "order2_func lt xs a b swaps =
     (if data_Less lt xs b a then (b, a, swaps + 1) else (a, b, swaps))"

definition median_func ::
  "('a \<Rightarrow> 'a \<Rightarrow> bool) \<Rightarrow> 'a list \<Rightarrow> int \<Rightarrow> int \<Rightarrow> int \<Rightarrow> nat \<Rightarrow> int \<times> nat" where
  "median_func lt xs a b c swaps =
     (let (a, b, swaps) = order2_func lt xs a b swaps;
          (b, c, swaps) = order2_func lt xs b c swaps;
          (a, b, swaps) = order2_func lt xs a b swaps
      in (b, swaps))"

definition medianAdjacent_func ::
  "('a \<Rightarrow> 'a \<Rightarrow> bool) \<Rightarrow> 'a list \<Rightarrow> int \<Rightarrow> nat \<Rightarrow> int \<times> nat" where
  "medianAdjacent_func lt xs a swaps = median_func lt xs (a - 1) a (a + 1) swaps"

datatype sortedHint = unknownHint | increasingHint | decreasingHint

text \<open>
  \<^verbatim>\<open>choosePivot_func(data, a, b)\<close>: a static pivot below 8 elements, the median of
  three below 50 (\<^verbatim>\<open>shortestNinther\<close>), Tukey's ninther from there; \<^verbatim>\<open>maxSwaps\<close> is
  12. The ranges have \<open>a \<le> b\<close>, where Go's division and \<open>div\<close> agree.
\<close>

definition choosePivot_func ::
  "('a \<Rightarrow> 'a \<Rightarrow> bool) \<Rightarrow> 'a list \<Rightarrow> int \<Rightarrow> int \<Rightarrow> int \<times> sortedHint" where
  "choosePivot_func lt xs a b =
     (let l = b - a;
          i = a + l div 4 * 1;
          j = a + l div 4 * 2;
          k = a + l div 4 * 3;
          (j, swaps) =
            (if 8 \<le> l
             then (let (i, j, k, swaps) =
                         (if 50 \<le> l
                          then (let (i, swaps) = medianAdjacent_func lt xs i 0;
                                    (j, swaps) = medianAdjacent_func lt xs j swaps;
                                    (k, swaps) = medianAdjacent_func lt xs k swaps
                                in (i, j, k, swaps))
                          else (i, j, k, 0))
                   in median_func lt xs i j k swaps)
             else (j, 0))
      in if swaps = 0 then (j, increasingHint)
         else if swaps = 12 then (j, decreasingHint)
         else (j, unknownHint))"

text \<open>\<^verbatim>\<open>reverseRange_func(data, a, b)\<close>.\<close>

function reverseRange_loop :: "int \<Rightarrow> int \<Rightarrow> 'a list \<Rightarrow> 'a list" where
  "reverseRange_loop i j xs =
     (if i < j then reverseRange_loop (i + 1) (j - 1) (data_Swap xs i j) else xs)"
  by pat_completeness auto
termination by (relation "measure (\<lambda>(i, j, xs). nat (j - i))") auto

declare reverseRange_loop.simps [simp del]

definition reverseRange_func :: "'a list \<Rightarrow> int \<Rightarrow> int \<Rightarrow> 'a list" where
  "reverseRange_func xs a b = reverseRange_loop a (b - 1) xs"

text \<open>
  \<^verbatim>\<open>partialInsertionSort_func(data, a, b)\<close>, which tells whether the range is sorted at
  the end: the loop \<^verbatim>\<open>for i < b && !data.Less(i, i-1) { i++ }\<close>, the two loops that
  shift an element to the left and to the right, and the at most five
  (\<^verbatim>\<open>maxSteps\<close>) rounds. Below 50 elements (\<^verbatim>\<open>shortestShifting\<close>) nothing is moved.
\<close>

function skip_ordered :: "('a \<Rightarrow> 'a \<Rightarrow> bool) \<Rightarrow> 'a list \<Rightarrow> int \<Rightarrow> int \<Rightarrow> int" where
  "skip_ordered lt xs b i =
     (if i < b \<and> \<not> data_Less lt xs i (i - 1) then skip_ordered lt xs b (i + 1) else i)"
  by pat_completeness auto
termination by (relation "measure (\<lambda>(lt, xs, b, i). nat (b - i))") auto

declare skip_ordered.simps [simp del]

function shift_left :: "('a \<Rightarrow> 'a \<Rightarrow> bool) \<Rightarrow> int \<Rightarrow> 'a list \<Rightarrow> 'a list" where
  "shift_left lt j xs =
     (if 1 \<le> j \<and> data_Less lt xs j (j - 1)
      then shift_left lt (j - 1) (data_Swap xs j (j - 1))
      else xs)"
  by pat_completeness auto
termination by (relation "measure (\<lambda>(lt, j, xs). nat j)") auto

declare shift_left.simps [simp del]

function shift_right :: "('a \<Rightarrow> 'a \<Rightarrow> bool) \<Rightarrow> int \<Rightarrow> int \<Rightarrow> 'a list \<Rightarrow> 'a list" where
  "shift_right lt b j xs =
     (if j < b \<and> data_Less lt xs j (j - 1)
      then shift_right lt b (j + 1) (data_Swap xs j (j - 1))
      else xs)"
  by pat_completeness auto
termination by (relation "measure (\<lambda>(lt, b, j, xs). nat (b - j))") auto

declare shift_right.simps [simp del]

fun partialInsertionSort_steps ::
  "nat \<Rightarrow> ('a \<Rightarrow> 'a \<Rightarrow> bool) \<Rightarrow> int \<Rightarrow> int \<Rightarrow> int \<Rightarrow> 'a list \<Rightarrow> bool \<times> 'a list" where
  "partialInsertionSort_steps 0 lt a b i xs = (False, xs)"
| "partialInsertionSort_steps (Suc n) lt a b i xs =
     (let i = skip_ordered lt xs b i in
      if i = b then (True, xs)
      else if b - a < 50 then (False, xs)
      else (let xs = data_Swap xs i (i - 1);
                xs = (if 2 \<le> i - a then shift_left lt (i - 1) xs else xs);
                xs = (if 2 \<le> b - i then shift_right lt b (i + 1) xs else xs)
            in partialInsertionSort_steps n lt a b i xs))"

definition partialInsertionSort_func ::
  "('a \<Rightarrow> 'a \<Rightarrow> bool) \<Rightarrow> 'a list \<Rightarrow> int \<Rightarrow> int \<Rightarrow> bool \<times> 'a list" where
  "partialInsertionSort_func lt xs a b = partialInsertionSort_steps 5 lt a b (a + 1) xs"

text \<open>
  \<^verbatim>\<open>partition_func(data, a, b, pivot)\<close>, which returns the new place of the pivot and
  whether the range was partitioned already: the loops
  \<^verbatim>\<open>for i <= j && data.Less(i, a) { i++ }\<close> and
  \<^verbatim>\<open>for i <= j && !data.Less(j, a) { j-- }\<close>, and the loop around them.
\<close>

function scan_less :: "('a \<Rightarrow> 'a \<Rightarrow> bool) \<Rightarrow> 'a list \<Rightarrow> int \<Rightarrow> int \<Rightarrow> int \<Rightarrow> int" where
  "scan_less lt xs a i j =
     (if i \<le> j \<and> data_Less lt xs i a then scan_less lt xs a (i + 1) j else i)"
  by pat_completeness auto
termination by (relation "measure (\<lambda>(lt, xs, a, i, j). nat (j + 1 - i))") auto

declare scan_less.simps [simp del]

function scan_not_less :: "('a \<Rightarrow> 'a \<Rightarrow> bool) \<Rightarrow> 'a list \<Rightarrow> int \<Rightarrow> int \<Rightarrow> int \<Rightarrow> int" where
  "scan_not_less lt xs a i j =
     (if i \<le> j \<and> \<not> data_Less lt xs j a then scan_not_less lt xs a i (j - 1) else j)"
  by pat_completeness auto
termination by (relation "measure (\<lambda>(lt, xs, a, i, j). nat (j + 1 - i))") auto

declare scan_not_less.simps [simp del]

lemma scan_less_ge: "i \<le> scan_less lt xs a i j"
  by (induction lt xs a i j rule: scan_less.induct) (subst scan_less.simps, auto)

lemma scan_not_less_le: "scan_not_less lt xs a i j \<le> j"
  by (induction lt xs a i j rule: scan_not_less.induct) (subst scan_not_less.simps, auto)

function partition_loop ::
  "('a \<Rightarrow> 'a \<Rightarrow> bool) \<Rightarrow> int \<Rightarrow> int \<Rightarrow> int \<Rightarrow> 'a list \<Rightarrow> 'a list \<times> int" where
  "partition_loop lt a i j xs =
     (let i = scan_less lt xs a i j;
          j = scan_not_less lt xs a i j
      in if j < i then (xs, j)
         else partition_loop lt a (i + 1) (j - 1) (data_Swap xs i j))"
  by pat_completeness auto
termination
proof (relation "measure (\<lambda>(lt, a, i, j, xs). nat (j + 1 - i))", goal_cases)
  case 1
  show ?case by simp
next
  case (2 lt a i j xs i' j')
  from 2(1) scan_less_ge [of i lt xs a j] have "i \<le> i'" by simp
  moreover from 2(2) scan_not_less_le [of lt xs a i' j] have "j' \<le> j" by simp
  ultimately show ?case using 2(3) by simp
qed

declare partition_loop.simps [simp del]

definition partition_func ::
  "('a \<Rightarrow> 'a \<Rightarrow> bool) \<Rightarrow> 'a list \<Rightarrow> int \<Rightarrow> int \<Rightarrow> int \<Rightarrow> 'a list \<times> int \<times> bool" where
  "partition_func lt xs a b pivot =
     (let xs = data_Swap xs a pivot;
          i = scan_less lt xs a (a + 1) (b - 1);
          j = scan_not_less lt xs a i (b - 1)
      in if j < i then (data_Swap xs j a, j, True)
         else (let (xs, j) = partition_loop lt a (i + 1) (j - 1) (data_Swap xs i j)
               in (data_Swap xs j a, j, False)))"

text \<open>
  \<^verbatim>\<open>partitionEqual_func(data, a, b, pivot)\<close>: the loops
  \<^verbatim>\<open>for i <= j && !data.Less(a, i) { i++ }\<close> and
  \<^verbatim>\<open>for i <= j && data.Less(a, j) { j-- }\<close>, and the loop around them.
\<close>

function scan_not_greater :: "('a \<Rightarrow> 'a \<Rightarrow> bool) \<Rightarrow> 'a list \<Rightarrow> int \<Rightarrow> int \<Rightarrow> int \<Rightarrow> int" where
  "scan_not_greater lt xs a i j =
     (if i \<le> j \<and> \<not> data_Less lt xs a i then scan_not_greater lt xs a (i + 1) j else i)"
  by pat_completeness auto
termination by (relation "measure (\<lambda>(lt, xs, a, i, j). nat (j + 1 - i))") auto

declare scan_not_greater.simps [simp del]

function scan_greater :: "('a \<Rightarrow> 'a \<Rightarrow> bool) \<Rightarrow> 'a list \<Rightarrow> int \<Rightarrow> int \<Rightarrow> int \<Rightarrow> int" where
  "scan_greater lt xs a i j =
     (if i \<le> j \<and> data_Less lt xs a j then scan_greater lt xs a i (j - 1) else j)"
  by pat_completeness auto
termination by (relation "measure (\<lambda>(lt, xs, a, i, j). nat (j + 1 - i))") auto

declare scan_greater.simps [simp del]

lemma scan_not_greater_ge: "i \<le> scan_not_greater lt xs a i j"
  by (induction lt xs a i j rule: scan_not_greater.induct) (subst scan_not_greater.simps, auto)

lemma scan_greater_le: "scan_greater lt xs a i j \<le> j"
  by (induction lt xs a i j rule: scan_greater.induct) (subst scan_greater.simps, auto)

function partitionEqual_loop ::
  "('a \<Rightarrow> 'a \<Rightarrow> bool) \<Rightarrow> int \<Rightarrow> int \<Rightarrow> int \<Rightarrow> 'a list \<Rightarrow> 'a list \<times> int" where
  "partitionEqual_loop lt a i j xs =
     (let i = scan_not_greater lt xs a i j;
          j = scan_greater lt xs a i j
      in if j < i then (xs, i)
         else partitionEqual_loop lt a (i + 1) (j - 1) (data_Swap xs i j))"
  by pat_completeness auto
termination
proof (relation "measure (\<lambda>(lt, a, i, j, xs). nat (j + 1 - i))", goal_cases)
  case 1
  show ?case by simp
next
  case (2 lt a i j xs i' j')
  from 2(1) scan_not_greater_ge [of i lt xs a j] have "i \<le> i'" by simp
  moreover from 2(2) scan_greater_le [of lt xs a i' j] have "j' \<le> j" by simp
  ultimately show ?case using 2(3) by simp
qed

declare partitionEqual_loop.simps [simp del]

definition partitionEqual_func ::
  "('a \<Rightarrow> 'a \<Rightarrow> bool) \<Rightarrow> 'a list \<Rightarrow> int \<Rightarrow> int \<Rightarrow> int \<Rightarrow> 'a list \<times> int" where
  "partitionEqual_func lt xs a b pivot =
     partitionEqual_loop lt a (a + 1) (b - 1) (data_Swap xs a pivot)"

text \<open>\<^verbatim>\<open>bits.Len\<close>: the number of bits of a number.\<close>

fun bits_Len :: "nat \<Rightarrow> nat" where
  "bits_Len n = (if n = 0 then 0 else Suc (bits_Len (n div 2)))"

declare bits_Len.simps [simp del]

text \<open>
  The two functions that \<^verbatim>\<open>pdqsort_func\<close> falls back on after a badly balanced
  partition are parameters: \<^verbatim>\<open>breakPatterns_func\<close>, which exchanges three elements
  with others chosen by a pseudo-random sequence, and \<^verbatim>\<open>heapSort_func\<close>, which is
  reached only after \<^verbatim>\<open>breakPatterns_func\<close> has run as often as \<open>limit\<close> allows. What
  is stated below holds whatever they do.
\<close>

type_synonym 'a range_op = "('a \<Rightarrow> 'a \<Rightarrow> bool) \<Rightarrow> 'a list \<Rightarrow> int \<Rightarrow> int \<Rightarrow> 'a list"

record 'a fallbacks =
  breakPatterns_func :: "'a range_op"
  heapSort_func :: "'a range_op"

text \<open>
  A round of the loop of \<^verbatim>\<open>pdqsort_func\<close> up to its choice between the two
  partitions: \<^verbatim>\<open>breakPatterns_func\<close> and \<^verbatim>\<open>limit--\<close> if the last partition was not
  balanced, the choice of the pivot, the reversal of a range that looks decreasing, and
  \<^verbatim>\<open>partialInsertionSort_func\<close> on a range that looks sorted. The result tells
  whether the range is sorted now, and gives the slice, the pivot and the limit.
\<close>

definition pdqsort_prepare ::
  "'a range_op \<Rightarrow> ('a \<Rightarrow> 'a \<Rightarrow> bool) \<Rightarrow> 'a list \<Rightarrow> int \<Rightarrow> int \<Rightarrow> nat \<Rightarrow> bool \<Rightarrow> bool \<Rightarrow>
     bool \<times> 'a list \<times> int \<times> nat" where
  "pdqsort_prepare breakPatterns lt xs a b limit wasBalanced wasPartitioned =
     (let (xs, limit) =
            (if \<not> wasBalanced then (breakPatterns lt xs a b, limit - 1) else (xs, limit));
          (pivot, hint) = choosePivot_func lt xs a b;
          (xs, pivot, hint) =
            (if hint = decreasingHint
             then (reverseRange_func xs a b, (b - 1) - (pivot - a), increasingHint)
             else (xs, pivot, hint));
          (stop, xs) =
            (if wasBalanced \<and> wasPartitioned \<and> hint = increasingHint
             then partialInsertionSort_func lt xs a b
             else (False, xs))
      in (stop, xs, pivot, limit))"

text \<open>
  \<^verbatim>\<open>pdqsort_func(data, a, b, limit)\<close>; \<open>was\<close> holds its two local flags,
  \<^verbatim>\<open>wasBalanced\<close> and \<^verbatim>\<open>wasPartitioned\<close>, both true when the function is entered.
  A round of its loop is a call: up to 12 elements (\<^verbatim>\<open>maxInsertion\<close>) are sorted by
  insertion; otherwise the range is partitioned, the shorter side is sorted by the
  recursive call and the loop goes on with the other side. \<open>None\<close> is a call that does
  not return.
\<close>

partial_function (option) pdqsort_func ::
  "'a fallbacks \<Rightarrow> ('a \<Rightarrow> 'a \<Rightarrow> bool) \<Rightarrow> 'a list \<Rightarrow> int \<Rightarrow> int \<Rightarrow> nat \<Rightarrow> bool \<times> bool \<Rightarrow>
     'a list option" where
  "pdqsort_func fb lt xs a b limit was =
     (if b - a \<le> 12 then Some (insertionSort_func lt xs a b)
      else if limit = 0 then Some (heapSort_func fb lt xs a b)
      else (case pdqsort_prepare (breakPatterns_func fb) lt xs a b limit (fst was) (snd was) of
              (stop, xs, pivot, limit) \<Rightarrow>
                if stop then Some xs
                else if 0 < a \<and> \<not> data_Less lt xs (a - 1) pivot
                then (case partitionEqual_func lt xs a b pivot of
                        (xs, mid) \<Rightarrow> pdqsort_func fb lt xs mid b limit was)
                else (case partition_func lt xs a b pivot of
                        (xs, mid, alreadyPartitioned) \<Rightarrow>
                          if mid - a < b - mid
                          then Option.bind
                                 (pdqsort_func fb lt xs a mid limit (True, True))
                                 (\<lambda>xs. pdqsort_func fb lt xs (mid + 1) b limit
                                          ((b - a) div 8 \<le> mid - a, alreadyPartitioned))
                          else Option.bind
                                 (pdqsort_func fb lt xs (mid + 1) b limit (True, True))
                                 (\<lambda>xs. pdqsort_func fb lt xs a mid limit
                                          ((b - a) div 8 \<le> b - mid, alreadyPartitioned)))))"

declare pdqsort_func.simps [code]

text \<open>
  \<^verbatim>\<open>sort.Slice(x, less)\<close>:
  \<^verbatim>\<open>pdqsort_func(lessSwap{less, swap}, 0, length, bits.Len(uint(length)))\<close>.
\<close>

definition go_sort_Slice ::
  "'a fallbacks \<Rightarrow> ('a \<Rightarrow> 'a \<Rightarrow> bool) \<Rightarrow> 'a list \<Rightarrow> 'a list option" where
  "go_sort_Slice fb lt xs =
     pdqsort_func fb lt xs 0 (int (length xs)) (bits_Len (length xs)) (True, True)"

subsection \<open>Where a call of build stands\<close>

definition ref_of_call :: "'r call \<Rightarrow> string" where
  "ref_of_call c = ref_of (arg_image c) (arg_tag c)"

text \<open>The call has stored the entry of its reference and not yet deleted it.\<close>

definition in_section :: "'r call \<Rightarrow> bool" where
  "in_section c =
     (pc c = At_Lock \<or> pc c = In_Lock \<or> pc c = At_getRules \<or> pc c = At_Loop \<or> pc c = At_Delete)"

text \<open>The call holds its mutex exclusively: after \<^verbatim>\<open>Lock\<close>, before \<^verbatim>\<open>Unlock\<close>.\<close>

definition holds_lock :: "'r call \<Rightarrow> bool" where
  "holds_lock c =
     (pc c = At_getRules \<or> pc c = At_Loop \<or> pc c = At_Delete \<or> pc c = At_Unlock)"

text \<open>The call stored the entry and is past the loop of lines 208 to 217, where \<open>Build\<close>
  is called.\<close>

definition has_built :: "'r call \<Rightarrow> bool" where
  "has_built c = (\<not> ok c \<and> (pc c = At_Delete \<or> pc c = At_Unlock \<or> pc c = Returned))"

text \<open>The call stored the entry, so \<open>mut\<close> is the mutex it allocated.\<close>

definition allocated :: "'r call \<Rightarrow> bool" where
  "allocated c = (\<not> ok c \<and> pc c \<noteq> At_LoadOrStore)"

text \<open>
  What holds of a call at any time, given the trace so far: a call at \<^verbatim>\<open>RLock\<close> or
  \<^verbatim>\<open>RUnlock\<close> found the entry, a call between \<^verbatim>\<open>Lock\<close> and \<^verbatim>\<open>Unlock\<close> stored it,
  and a call with an error is one that stored the entry and is past the rule loop, where
  \<open>Build\<close> returned that error for its reference.
\<close>

definition call_consistent :: "('r, 'm) event list \<Rightarrow> 'r call \<Rightarrow> bool" where
  "call_consistent tr c =
     ((pc c = At_RLock \<or> pc c = At_RUnlock \<longrightarrow> ok c)
      \<and> (in_section c \<or> pc c = At_Unlock \<longrightarrow> \<not> ok c)
      \<and> (ret c \<noteq> None \<longrightarrow>
            has_built c \<and> (\<exists>m. Ev_Build (ref_of_call c) m (ret c) \<in> set tr)))"

text \<open>
  What holds of the registry at any time: the reference of a call between its
  \<^verbatim>\<open>LoadOrStore\<close> that stored and its \<^verbatim>\<open>Delete\<close> has an entry, and no two such calls
  have the same reference.
\<close>

definition registry_inv :: "('r, 'm, 'o, 'b) system \<Rightarrow> bool" where
  "registry_inv s =
     ((\<forall>t<length (calls s).
         in_section (calls s ! t) \<longrightarrow> buildMutex (handler s) (ref_of_call (calls s ! t)) \<noteq> None)
      \<and> (\<forall>t<length (calls s). \<forall>u<length (calls s).
            in_section (calls s ! t) \<and> in_section (calls s ! u)
            \<and> ref_of_call (calls s ! t) = ref_of_call (calls s ! u) \<longrightarrow> t = u))"

text \<open>
  What holds of the mutexes at any time: a writer holds the mutex of a call between
  \<^verbatim>\<open>Lock\<close> and \<^verbatim>\<open>Unlock\<close>, and a writer waits for the mutex of a call inside
  \<^verbatim>\<open>Lock\<close>; the mutex a call stored is allocated, and no two calls stored the same
  mutex.
\<close>

definition mutex_inv :: "('r, 'm, 'o, 'b) system \<Rightarrow> bool" where
  "mutex_inv s =
     ((\<forall>t<length (calls s).
         holds_lock (calls s ! t) \<longrightarrow> writer (mutexes (wld s) (mut (calls s ! t))))
      \<and> (\<forall>t<length (calls s).
            pc (calls s ! t) = In_Lock \<longrightarrow> waiting (mutexes (wld s) (mut (calls s ! t))))
      \<and> (\<forall>t<length (calls s).
            allocated (calls s ! t) \<longrightarrow> mut (calls s ! t) < nextMutex (wld s))
      \<and> (\<forall>t<length (calls s). \<forall>u<length (calls s).
            allocated (calls s ! t) \<and> allocated (calls s ! u)
            \<and> mut (calls s ! t) = mut (calls s ! u) \<longrightarrow> t = u))"

text \<open>
  The calls of \<open>Build\<close> that a call of \<open>build\<close> has made, read off where it stands: none
  unless it stored the entry and is past its loop; then one, for its reference and with
  the mutation of the first rule that matches in the list it got from \<^verbatim>\<open>getRules\<close>, or
  none when no rule of that list matches.
\<close>

definition made_by :: "('r, 'm, 'o, 'b) env \<Rightarrow> 'r call \<Rightarrow> (string \<times> 'm) list" where
  "made_by env c =
     (if has_built c
      then (case first_match env (ref_of_call c) (rules_l c) of
              None \<Rightarrow> []
            | Some r \<Rightarrow> [(ref_of_call c, fst (Match env r (ref_of_call c)))])
      else [])"

text \<open>The calls of \<open>Build\<close> in the trace are those of the start, \<open>b0\<close>, and those made by
  the calls of \<open>build\<close>, each as often.\<close>

definition builds_inv ::
  "('r, 'm, 'o, 'b) env \<Rightarrow> (string \<times> 'm) list \<Rightarrow> ('r, 'm, 'o, 'b) system \<Rightarrow> bool" where
  "builds_inv env b0 s =
     (mset (builds (trace (wld s))) = mset b0 + mset (concat (map (made_by env) (calls s))))"

definition coordinated ::
  "('r, 'm, 'o, 'b) env \<Rightarrow> (string \<times> 'm) list \<Rightarrow> ('r, 'm, 'o, 'b) system \<Rightarrow> bool" where
  "coordinated env b0 s =
     ((\<forall>c\<in>set (calls s). call_consistent (trace (wld s)) c)
      \<and> registry_inv s \<and> mutex_inv s \<and> builds_inv env b0 s)"

subsection \<open>A small instance\<close>

text \<open>
  An instance of the collaborators, for running the handler on concrete requests. A rule
  is a precedence key, a prefix that the reference must start with and the mutation it
  yields; a smaller key comes first. A specification converts to the rule with the same
  three parts unless its prefix is empty. The builder writes the mutation as the
  manifest of the reference, or fails on the mutation \<open>fail\<close>.
\<close>

type_synonym demo_rule = "nat \<times> string \<times> string"

definition demo_NewRule :: "demo_rule \<Rightarrow> error + demo_rule" where
  "demo_NewRule c = (if fst (snd c) = [] then Inl (Error ''empty match'') else Inr c)"

definition demo_less :: "demo_rule \<Rightarrow> demo_rule \<Rightarrow> bool" where
  "demo_less a b = (fst a < fst b)"

definition demo_Match :: "demo_rule \<Rightarrow> string \<Rightarrow> string \<times> bool" where
  "demo_Match r ref = (snd (snd r), strings_HasPrefix ref (fst (snd r)))"

definition demo_Build :: "string \<Rightarrow> string \<Rightarrow> string \<Rightarrow> filesystem \<Rightarrow> error option \<times> filesystem" where
  "demo_Build b ref m fs =
     (if m = ''fail'' then (Some (Error ''build failed''), fs)
      else (None, fs(b @ ''/manifests/'' @ ref \<mapsto> \<lparr>content = m, fstat = Inr 0\<rparr>)))"

text \<open>An insertion sort that puts an element behind the elements it does not precede.\<close>

fun insert_behind :: "('a \<Rightarrow> 'a \<Rightarrow> bool) \<Rightarrow> 'a \<Rightarrow> 'a list \<Rightarrow> 'a list" where
  "insert_behind lt x [] = [x]"
| "insert_behind lt x (y # ys) =
     (if lt x y then x # y # ys else y # insert_behind lt x ys)"

definition insertion_sort :: "('a \<Rightarrow> 'a \<Rightarrow> bool) \<Rightarrow> 'a list \<Rightarrow> 'a list" where
  "insertion_sort lt xs = foldl (\<lambda>acc x. insert_behind lt x acc) [] xs"

definition demo_env :: "(demo_rule, string, demo_rule, string) env" where
  "demo_env =
     \<lparr>NewRule = demo_NewRule, LessThan = demo_less, Match = demo_Match,
      sort_Slice = insertion_sort,
      newImageBuilder = (\<lambda>cache. if cache = [] then Inl (Error ''no cache'') else Inr cache),
      Build = demo_Build,
      BlobsPath = (\<lambda>b hash. b @ ''/blobs/'' @ hash),
      ManifestPath = (\<lambda>b img tag. b @ ''/manifests/'' @ ref_of img tag),
      decode_mediaType = (\<lambda>bytes. if bytes = [] then Inl (Error ''EOF'') else Inr bytes),
      ServeFile = (\<lambda>w r fs p. case fs p of None \<Rightarrow> http_NotFound w | Some f \<Rightarrow> Write (content f) w),
      ServeContent = (\<lambda>w r name modTime bytes. Write bytes w)\<rparr>"

text \<open>
  The instance with Go's \<^verbatim>\<open>sort.Slice\<close> in place of the insertion sort, for the given
  fallbacks.
\<close>

definition go_env :: "demo_rule fallbacks \<Rightarrow> (demo_rule, string, demo_rule, string) env" where
  "go_env fb = demo_env\<lparr>sort_Slice := (\<lambda>lt xs. the (go_sort_Slice fb lt xs))\<rparr>"

text \<open>Thirteen rules: twelve with the key 1, then one with the key 0.\<close>

definition tied_rules :: "demo_rule list" where
  "tied_rules =
     [(1, ''a/'', ''A''), (1, ''b/'', ''B''), (1, ''c/'', ''C''), (1, ''d/'', ''D''),
      (1, ''e/'', ''E''), (1, ''f/'', ''F''), (1, ''g/'', ''G''), (1, ''h/'', ''H''),
      (1, ''i/'', ''I''), (1, ''j/'', ''J''), (1, ''k/'', ''K''), (1, ''l/'', ''L''),
      (0, ''m/'', ''M'')]"

text \<open>The same rules in the order in which Go's \<^verbatim>\<open>sort.Slice\<close> leaves them.\<close>

definition tied_sorted :: "demo_rule list" where
  "tied_sorted =
     [(0, ''m/'', ''M''), (1, ''g/'', ''G''), (1, ''c/'', ''C''), (1, ''d/'', ''D''),
      (1, ''e/'', ''E''), (1, ''f/'', ''F''), (1, ''a/'', ''A''), (1, ''h/'', ''H''),
      (1, ''i/'', ''I''), (1, ''j/'', ''J''), (1, ''k/'', ''K''), (1, ''l/'', ''L''),
      (1, ''b/'', ''B'')]"

text \<open>A handler with the first of these rules as its static rule and a store that lists
  the other twelve.\<close>

definition tied_watching :: "(demo_rule, demo_rule, string) Handler" where
  "tied_watching =
     \<lparr>buildMutex = Map.empty, image_b = ''cache'', rules = [hd tied_rules], cr = None,
      store = Some (map (\<lambda>r. \<lparr>Name = fst (snd r), Spec = r\<rparr>) (tl tied_rules)),
      clientset = True\<rparr>"

definition demo_handler :: "(demo_rule, demo_rule, string) Handler" where
  "demo_handler =
     \<lparr>buildMutex = Map.empty, image_b = ''cache'', rules = [(1, ''app/'', ''M'')],
      cr = None, store = None, clientset = False\<rparr>"

definition demo_world :: "(demo_rule, string) world" where
  "demo_world = \<lparr>mutexes = (\<lambda>a. new_RWMutex), nextMutex = 0, files = Map.empty, trace = []\<rparr>"

definition GET :: "string \<Rightarrow> request" where
  "GET p = \<lparr>Method = ''GET'', Path = p, Header = []\<rparr>"

text \<open>Three rules in the order of their keys, for the instance.\<close>

definition demo_rules :: "demo_rule list" where
  "demo_rules = [(1, ''app/foo'', ''M1''), (2, ''app/'', ''M2''), (2, ''a'', ''M3'')]"

text \<open>A handler with a store that lists three objects, the second malformed.\<close>

definition demo_objects :: "demo_rule Image list" where
  "demo_objects =
     [\<lparr>Name = ''lib'', Spec = (0, ''lib/'', ''L'')\<rparr>,
      \<lparr>Name = ''broken'', Spec = (5, '''', ''X'')\<rparr>,
      \<lparr>Name = ''foo'', Spec = (1, ''app/foo'', ''F'')\<rparr>]"

definition demo_watching :: "(demo_rule, demo_rule, string) Handler" where
  "demo_watching = demo_handler\<lparr>store := Some demo_objects, clientset := True\<rparr>"

text \<open>The instance with a rule whose mutation the builder fails on.\<close>

definition failing_handler :: "(demo_rule, demo_rule, string) Handler" where
  "failing_handler = demo_handler\<lparr>rules := [(1, ''app/'', ''fail'')]\<rparr>"

text \<open>The handler that \<^verbatim>\<open>NewHandler\<close> returns in the instance for two entries given
  out of order, with a clientset.\<close>

definition sorted_handler :: "(demo_rule, demo_rule, string) Handler" where
  "sorted_handler =
     \<lparr>buildMutex = Map.empty, image_b = ''cache'',
      rules = [(1, ''a'', ''A''), (2, ''b'', ''B'')], cr = None, store = None,
      clientset = True\<rparr>"

text \<open>Two requests for the same reference, each of which has just entered \<open>build\<close>.\<close>

definition two_calls ::
  "(demo_rule, demo_rule, string) Handler \<Rightarrow> (demo_rule, string, demo_rule, string) system" where
  "two_calls h = start_calls h demo_world [(''app/foo'', ''v1''), (''app/foo'', ''v1'')]"

section \<open>Properties\<close>

subsection \<open>Routing\<close>

lemma length_split_from:
  "length (split_from sep cur s) = Suc (length (filter (\<lambda>c. c = sep) s))"
  by (induction s arbitrary: cur) auto

lemma root_is_short: "4 \<le> length (strings_Split p (CHR ''/'')) \<Longrightarrow> p \<noteq> ''/v2/''"
  by (auto simp: strings_Split_def)

text \<open>
  C9. A GET or HEAD request under \<open>/v2/\<close> whose path splits into at least four
  segments, the second to last neither \<open>blobs\<close> nor \<open>manifests\<close>, leaves the response
  writer as it was: no status, no header, no body is written, and the handler and the
  world are unchanged too.
\<close>

theorem ServeHTTP_unknown_type_writes_nothing:
  assumes "Method r = ''GET'' \<or> Method r = ''HEAD''"
    and "strings_HasPrefix (Path r) ''/v2/''"
    and "parts = strings_Split (Path r) (CHR ''/'')"
    and "4 \<le> length parts"
    and "parts ! (length parts - 2) \<noteq> ''blobs''"
    and "parts ! (length parts - 2) \<noteq> ''manifests''"
  shows "ServeHTTP env w r h wd = Some (w, h, wd)"
proof -
  have "Path r \<noteq> ''/v2/''"
    using assms(3,4) root_is_short by blast
  then show ?thesis
    using assms by (auto simp: ServeHTTP_def Let_def)
qed

theorem ServeHTTP_unknown_type_witness:
  "ServeHTTP demo_env empty_response (GET ''/v2/app/foo/tags/list'') demo_handler demo_world
     = Some (empty_response, demo_handler, demo_world)
   \<and> strings_Split ''/v2/app/foo/tags/list'' (CHR ''/'') = ['''', ''v2'', ''app'', ''foo'', ''tags'', ''list'']"
proof -
  have parts: "strings_Split (Path (GET ''/v2/app/foo/tags/list'')) (CHR ''/'')
                 = ['''', ''v2'', ''app'', ''foo'', ''tags'', ''list'']"
    by (simp add: GET_def strings_Split_def)
  have "ServeHTTP demo_env empty_response (GET ''/v2/app/foo/tags/list'') demo_handler demo_world
          = Some (empty_response, demo_handler, demo_world)"
    by (rule ServeHTTP_unknown_type_writes_nothing [OF _ _ parts [symmetric]])
       (simp_all add: GET_def strings_HasPrefix_def)
  with parts show ?thesis by (simp add: GET_def)
qed

subsection \<open>The reference string\<close>

text \<open>
  C10. The reference \<open>image:tag\<close> does not determine the pair: repository \<open>a\<close> with tag
  \<open>b:c\<close> and repository \<open>a:b\<close> with tag \<open>c\<close> are two requests that the front door
  hands to \<open>manifests\<close> as such, and both give the reference \<open>a:b:c\<close>. So after the
  \<^verbatim>\<open>LoadOrStore\<close> of the first, the \<^verbatim>\<open>LoadOrStore\<close> of the second finds that entry and
  gets the same mutex, and the rule loop runs the same for both.
\<close>

theorem ref_of_not_injective:
  "ref_of ''a'' ''b:c'' = ref_of ''a:b'' ''c''
   \<and> (''a'', ''b:c'') \<noteq> (''a:b'', ''c'')
   \<and> \<not> inj (\<lambda>(img, tag). ref_of img tag)
   \<and> ServeHTTP env w (GET ''/v2/a/manifests/b:c'') h wd
       = manifests env w (GET ''/v2/a/manifests/b:c'') ''a'' ''b:c'' h wd
   \<and> ServeHTTP env w (GET ''/v2/a:b/manifests/c'') h wd
       = manifests env w (GET ''/v2/a:b/manifests/c'') ''a:b'' ''c'' h wd
   \<and> (let ((m1, ok1), reg1) = LoadOrStore reg (ref_of ''a'' ''b:c'') v1;
           ((m2, ok2), reg2) = LoadOrStore reg1 (ref_of ''a:b'' ''c'') v2
       in ok2 \<and> m2 = m1 \<and> reg2 = reg1)
   \<and> match_rules env b (ref_of ''a'' ''b:c'') rs wd = match_rules env b (ref_of ''a:b'' ''c'') rs wd"
proof -
  have eq: "ref_of ''a'' ''b:c'' = ref_of ''a:b'' ''c''"
    by (simp add: ref_of_def)
  have ne: "(''a'', ''b:c'') \<noteq> (''a:b'', ''c'')"
    by simp
  have ninj: "\<not> inj (\<lambda>(img, tag). ref_of img tag)"
  proof
    assume "inj (\<lambda>(img, tag). ref_of img tag)"
    from injD [OF this, of "(''a'', ''b:c'')" "(''a:b'', ''c'')"] eq
    show False by simp
  qed
  have r1: "ServeHTTP env w (GET ''/v2/a/manifests/b:c'') h wd
              = manifests env w (GET ''/v2/a/manifests/b:c'') ''a'' ''b:c'' h wd"
    by (simp add: ServeHTTP_def GET_def strings_HasPrefix_def strings_Split_def slice_def)
  have r2: "ServeHTTP env w (GET ''/v2/a:b/manifests/c'') h wd
              = manifests env w (GET ''/v2/a:b/manifests/c'') ''a:b'' ''c'' h wd"
    by (simp add: ServeHTTP_def GET_def strings_HasPrefix_def strings_Split_def slice_def)
  have reg: "(let ((m1, ok1), reg1) = LoadOrStore reg (ref_of ''a'' ''b:c'') v1;
                  ((m2, ok2), reg2) = LoadOrStore reg1 (ref_of ''a:b'' ''c'') v2
              in ok2 \<and> m2 = m1 \<and> reg2 = reg1)"
    unfolding eq by (simp add: LoadOrStore_def split: option.split)
  have mr: "match_rules env b (ref_of ''a'' ''b:c'') rs wd
              = match_rules env b (ref_of ''a:b'' ''c'') rs wd"
    by (simp only: eq)
  from eq ne ninj r1 r2 reg mr show ?thesis
    by blast
qed

subsection \<open>First match wins\<close>

lemma builds_append: "builds (xs @ ys) = builds xs @ builds ys"
  by (induction xs rule: builds.induct) auto

lemma consulted_append: "consulted (xs @ ys) = consulted xs @ consulted ys"
  by (induction xs rule: consulted.induct) auto

lemma calls_in_append: "calls_in (xs @ ys) = calls_in xs @ calls_in ys"
  by (simp add: calls_in_def)

lemma first_match_split:
  assumes "sorted_wrt R rs" and "find P rs = Some r"
  shows "\<exists>post. rs = takeWhile (\<lambda>q. \<not> P q) rs @ r # post \<and> P r \<and> (\<forall>q\<in>set post. R r q)"
  using assms
proof (induction rs)
  case Nil
  then show ?case by simp
next
  case (Cons a rs)
  show ?case
  proof (cases "P a")
    case True
    with Cons.prems have "r = a" by simp
    with True Cons.prems(1) show ?thesis by simp
  next
    case False
    with Cons.prems have "find P rs = Some r" and "sorted_wrt R rs" by simp_all
    from Cons.IH [OF this(2,1)] obtain post where
      eq: "rs = takeWhile (\<lambda>q. \<not> P q) rs @ r # post" and r: "P r" and le: "\<forall>q\<in>set post. R r q"
      by blast
    have "a # rs = takeWhile (\<lambda>q. \<not> P q) (a # rs) @ r # post"
      using False eq [symmetric] by simp
    with r le show ?thesis by blast
  qed
qed

lemma match_rules_first:
  "match_rules env b ref rs wd = (err, wd') \<Longrightarrow>
   (case first_match env ref rs of
      None \<Rightarrow>
        err = None \<and> files wd' = files wd
        \<and> builds (trace wd') = builds (trace wd)
        \<and> consulted (trace wd') = consulted (trace wd) @ rs
    | Some r \<Rightarrow>
        (err, files wd') = Build env b ref (fst (Match env r ref)) (files wd)
        \<and> builds (trace wd') = builds (trace wd) @ [(ref, fst (Match env r ref))]
        \<and> consulted (trace wd')
            = consulted (trace wd) @ takeWhile (\<lambda>q. \<not> snd (Match env q ref)) rs @ [r])"
proof (induction rs arbitrary: wd)
  case Nil
  then show ?case by (simp add: first_match_def)
next
  case (Cons a rs)
  show ?case
  proof (cases "snd (Match env a ref)")
    case True
    with Cons.prems show ?thesis
      by (auto simp: first_match_def Let_def builds_append consulted_append split: prod.splits)
  next
    case False
    with Cons.prems have
      "match_rules env b ref rs (wd\<lparr>trace := trace wd @ [Ev_Match a ref]\<rparr>) = (err, wd')"
      by (simp add: Let_def split: prod.splits)
    from Cons.IH [OF this] False show ?thesis
      by (auto simp: first_match_def builds_append consulted_append split: option.splits)
  qed
qed

text \<open>
  C3. On a list sorted by the rules' comparison, the loop of \<open>build\<close> selects the
  mutation of the first rule, in the list's order, that matches the reference: it calls
  \<open>Build\<close> once, with that mutation, and returns what \<open>Build\<close> returns; with no
  matching rule it calls no \<open>Build\<close> and returns no error. The rules it asks are the
  rules before the first match and that rule, so no rule behind a match is consulted;
  and no rule behind the selected one comes before it in the comparison.
\<close>

theorem first_match_wins:
  assumes "sorted_wrt (\<lambda>a b. \<not> LessThan env b a) rs"
    and "match_rules env b ref rs wd = (err, wd')"
  shows "case first_match env ref rs of
           None \<Rightarrow>
             err = None \<and> files wd' = files wd
             \<and> builds (trace wd') = builds (trace wd)
             \<and> consulted (trace wd') = consulted (trace wd) @ rs
         | Some r \<Rightarrow>
             (err, files wd') = Build env b ref (fst (Match env r ref)) (files wd)
             \<and> builds (trace wd') = builds (trace wd) @ [(ref, fst (Match env r ref))]
             \<and> consulted (trace wd')
                 = consulted (trace wd) @ takeWhile (\<lambda>q. \<not> snd (Match env q ref)) rs @ [r]
             \<and> (\<exists>post. rs = takeWhile (\<lambda>q. \<not> snd (Match env q ref)) rs @ r # post
                   \<and> snd (Match env r ref)
                   \<and> (\<forall>q\<in>set post. \<not> LessThan env q r))"
proof (cases "first_match env ref rs")
  case None
  with match_rules_first [OF assms(2)] show ?thesis by simp
next
  case (Some r)
  then have "find (\<lambda>q. snd (Match env q ref)) rs = Some r"
    by (simp add: first_match_def)
  from first_match_split [OF assms(1) this]
  have "\<exists>post. rs = takeWhile (\<lambda>q. \<not> snd (Match env q ref)) rs @ r # post
          \<and> snd (Match env r ref) \<and> (\<forall>q\<in>set post. \<not> LessThan env q r)" .
  with match_rules_first [OF assms(2)] Some show ?thesis by simp
qed

theorem first_match_wins_witness:
  "sorted_wrt (\<lambda>a b. \<not> LessThan demo_env b a) demo_rules
   \<and> first_match demo_env ''app/bar:v1'' demo_rules = Some (2, ''app/'', ''M2'')
   \<and> match_rules demo_env ''cache'' ''app/bar:v1'' demo_rules demo_world
       = (None, \<lparr>mutexes = (\<lambda>a. new_RWMutex), nextMutex = 0,
                 files = [''cache/manifests/app/bar:v1'' \<mapsto> \<lparr>content = ''M2'', fstat = Inr 0\<rparr>],
                 trace = [Ev_Match (1, ''app/foo'', ''M1'') ''app/bar:v1'',
                          Ev_Match (2, ''app/'', ''M2'') ''app/bar:v1'',
                          Ev_Build ''app/bar:v1'' ''M2'' None]\<rparr>)
   \<and> (\<exists>post. demo_rules = [(1, ''app/foo'', ''M1''), (2, ''app/'', ''M2'')] @ post
         \<and> (\<forall>q\<in>set post. \<not> demo_less q (2, ''app/'', ''M2'')))"
proof -
  have s: "sorted_wrt (\<lambda>a b. \<not> LessThan demo_env b a) demo_rules"
    by (simp add: demo_rules_def demo_env_def demo_less_def)
  have f: "first_match demo_env ''app/bar:v1'' demo_rules = Some (2, ''app/'', ''M2'')"
    by (simp add: first_match_def demo_rules_def demo_env_def demo_Match_def strings_HasPrefix_def)
  have t: "takeWhile (\<lambda>q. \<not> snd (Match demo_env q ''app/bar:v1'')) demo_rules = [(1, ''app/foo'', ''M1'')]"
    by (simp add: demo_rules_def demo_env_def demo_Match_def strings_HasPrefix_def)
  have r: "match_rules demo_env ''cache'' ''app/bar:v1'' demo_rules demo_world
       = (None, \<lparr>mutexes = (\<lambda>a. new_RWMutex), nextMutex = 0,
                 files = [''cache/manifests/app/bar:v1'' \<mapsto> \<lparr>content = ''M2'', fstat = Inr 0\<rparr>],
                 trace = [Ev_Match (1, ''app/foo'', ''M1'') ''app/bar:v1'',
                          Ev_Match (2, ''app/'', ''M2'') ''app/bar:v1'',
                          Ev_Build ''app/bar:v1'' ''M2'' None]\<rparr>)"
    by (simp add: demo_rules_def demo_env_def demo_Match_def demo_Build_def demo_world_def
        strings_HasPrefix_def)
  from first_match_wins [OF s r] have
    "\<exists>post. demo_rules = [(1, ''app/foo'', ''M1''), (2, ''app/'', ''M2'')] @ post
         \<and> (\<forall>q\<in>set post. \<not> demo_less q (2, ''app/'', ''M2''))"
    unfolding f t by (simp add: demo_env_def) blast
  with s f r show ?thesis by blast
qed

subsection \<open>The rule cache\<close>

lemma convert_items_eq:
  "convert_items env list acc wd
     = (acc @ well_formed_rules env list,
        wd\<lparr>trace := trace wd @ map (Ev_Log ''newImageRule'') (conversion_errors env list)\<rparr>)"
  by (induction list arbitrary: acc wd) (auto simp: log_Error_def split: sum.splits)

lemma getRules_static:
  "store h = None \<Longrightarrow> getRules env h wd = (rules h, h, wd\<lparr>trace := trace wd @ [Ev_getRules]\<rparr>)"
  by (simp add: getRules_def)

lemma getRules_cached:
  "store h = Some objs \<Longrightarrow> cr h = Some c \<Longrightarrow>
   getRules env h wd = (c, h, wd\<lparr>trace := trace wd @ [Ev_getRules]\<rparr>)"
  by (simp add: getRules_def)

lemma getRules_rebuild:
  "store h = Some objs \<Longrightarrow> cr h = None \<Longrightarrow>
   getRules env h wd
     = (sort_Slice env (LessThan env) (rules h @ well_formed_rules env objs),
        h\<lparr>cr := Some (sort_Slice env (LessThan env) (rules h @ well_formed_rules env objs))\<rparr>,
        wd\<lparr>trace := trace wd @ [Ev_getRules, Ev_List]
                  @ map (Ev_Log ''newImageRule'') (conversion_errors env objs)\<rparr>)"
  by (simp add: getRules_def convert_items_eq Let_def)

lemma getRules_cases:
  obtains (static) "store h = None"
  | (cached) objs c where "store h = Some objs" "cr h = Some c"
  | (rebuild) objs where "store h = Some objs" "cr h = None"
  by (cases "store h"; cases "cr h") auto

lemma calls_in_Log [simp]: "calls_in (map (Ev_Log msg) errs) = []"
  by (induction errs) (auto simp: calls_in_def)

lemma builds_Log [simp]: "builds (map (Ev_Log msg) errs) = []"
  by (induction errs) auto

lemma mset_insert_behind: "mset (insert_behind lt x ys) = add_mset x (mset ys)"
  by (induction ys) auto

lemma mset_foldl_insert_behind:
  "mset (foldl (\<lambda>acc x. insert_behind lt x acc) acc xs) = mset acc + mset xs"
  by (induction xs arbitrary: acc) (auto simp: mset_insert_behind)

lemma mset_insertion_sort: "mset (insertion_sort lt xs) = mset xs"
  by (simp add: insertion_sort_def mset_foldl_insert_behind)

lemma demo_sort_permutes: "\<forall>xs. mset (sort_Slice demo_env (LessThan demo_env) xs) = mset xs"
  by (simp add: demo_env_def mset_insertion_sort)

lemma demo_watching_getRules:
  "getRules demo_env demo_watching demo_world
     = ([(0, ''lib/'', ''L''), (1, ''app/'', ''M''), (1, ''app/foo'', ''F'')],
        demo_watching\<lparr>cr := Some [(0, ''lib/'', ''L''), (1, ''app/'', ''M''), (1, ''app/foo'', ''F'')]\<rparr>,
        demo_world\<lparr>trace := [Ev_getRules, Ev_List, Ev_Log ''newImageRule'' (Error ''empty match'')]\<rparr>)"
  by (simp add: getRules_def demo_watching_def demo_handler_def demo_objects_def demo_world_def
      demo_env_def demo_NewRule_def log_Error_def insertion_sort_def demo_less_def Let_def)

text \<open>
  C5. With a store configured, a call of \<^verbatim>\<open>getRules\<close> leaves a cached list behind: the
  next call returns that same list without listing the store, whatever the store lists
  by then and whatever happened to the world, and the handler is unchanged by it. A call
  after \<^verbatim>\<open>resetCR\<close> lists the store again and returns the static rules and the
  well-formed rules of the present listing, sorted, and caches that list.
\<close>

theorem cached_until_reset:
  assumes "store h = Some objs"
    and "getRules env h wd = (l1, h1, wd1)"
  shows "(\<forall>objs' wd2.
            fst (getRules env (informer objs' h1) wd2) = l1
            \<and> calls_in (trace (snd (snd (getRules env (informer objs' h1) wd2))))
                = calls_in (trace wd2) @ [Ev_getRules])
         \<and> getRules env h1 wd1 = (l1, h1, wd1\<lparr>trace := trace wd1 @ [Ev_getRules]\<rparr>)
         \<and> (\<forall>wd2.
              fst (getRules env (resetCR h) wd2)
                = sort_Slice env (LessThan env) (rules h @ well_formed_rules env objs)
              \<and> cr (fst (snd (getRules env (resetCR h) wd2)))
                  = Some (sort_Slice env (LessThan env) (rules h @ well_formed_rules env objs))
              \<and> calls_in (trace (snd (snd (getRules env (resetCR h) wd2))))
                  = calls_in (trace wd2) @ [Ev_getRules, Ev_List])"
proof -
  have c1: "cr h1 = Some l1" and s1: "store h1 = Some objs"
  proof -
    have "cr h1 = Some l1 \<and> store h1 = Some objs"
    proof (cases "cr h")
      case None
      from assms(2) show ?thesis
        unfolding getRules_rebuild [OF assms(1) None] using assms(1) by auto
    next
      case (Some c)
      from assms(2) show ?thesis
        unfolding getRules_cached [OF assms(1) Some] using assms(1) Some by auto
    qed
    then show "cr h1 = Some l1" and "store h1 = Some objs" by simp_all
  qed
  have a: "fst (getRules env (informer objs' h1) wd2) = l1
            \<and> calls_in (trace (snd (snd (getRules env (informer objs' h1) wd2))))
                = calls_in (trace wd2) @ [Ev_getRules]" for objs' wd2
  proof -
    have "store (informer objs' h1) = Some objs'" and "cr (informer objs' h1) = Some l1"
      using c1 by (simp_all add: informer_def)
    from getRules_cached [OF this, of env wd2] show ?thesis
      by (simp add: calls_in_def)
  qed
  have b: "getRules env h1 wd1 = (l1, h1, wd1\<lparr>trace := trace wd1 @ [Ev_getRules]\<rparr>)"
    by (rule getRules_cached [OF s1 c1])
  have c: "fst (getRules env (resetCR h) wd2)
                = sort_Slice env (LessThan env) (rules h @ well_formed_rules env objs)
              \<and> cr (fst (snd (getRules env (resetCR h) wd2)))
                  = Some (sort_Slice env (LessThan env) (rules h @ well_formed_rules env objs))
              \<and> calls_in (trace (snd (snd (getRules env (resetCR h) wd2))))
                  = calls_in (trace wd2) @ [Ev_getRules, Ev_List]" for wd2
  proof -
    have "store (resetCR h) = Some objs" and "cr (resetCR h) = None"
      and "rules (resetCR h) = rules h"
      using assms(1) by (simp_all add: resetCR_def)
    from getRules_rebuild [OF this(1,2), of env wd2] this(3) show ?thesis
      by (simp add: calls_in_append) (simp add: calls_in_def)
  qed
  from a b c show ?thesis by blast
qed

theorem cached_until_reset_witness:
  "store demo_watching = Some demo_objects
   \<and> getRules demo_env demo_watching demo_world
       = ([(0, ''lib/'', ''L''), (1, ''app/'', ''M''), (1, ''app/foo'', ''F'')],
          demo_watching\<lparr>cr := Some [(0, ''lib/'', ''L''), (1, ''app/'', ''M''), (1, ''app/foo'', ''F'')]\<rparr>,
          demo_world\<lparr>trace := [Ev_getRules, Ev_List, Ev_Log ''newImageRule'' (Error ''empty match'')]\<rparr>)
   \<and> fst (getRules demo_env
            (informer [] (demo_watching\<lparr>cr := Some [(0, ''lib/'', ''L''), (1, ''app/'', ''M''), (1, ''app/foo'', ''F'')]\<rparr>))
            demo_world)
       = [(0, ''lib/'', ''L''), (1, ''app/'', ''M''), (1, ''app/foo'', ''F'')]
   \<and> fst (getRules demo_env (resetCR demo_watching) demo_world)
       = [(0, ''lib/'', ''L''), (1, ''app/'', ''M''), (1, ''app/foo'', ''F'')]
   \<and> fst (getRules demo_env (resetCR (informer [] demo_watching)) demo_world) = [(1, ''app/'', ''M'')]"
proof -
  have s: "store demo_watching = Some demo_objects"
    by (simp add: demo_watching_def demo_handler_def)
  note t = cached_until_reset [OF s demo_watching_getRules]
  have a: "fst (getRules demo_env
            (informer [] (demo_watching\<lparr>cr := Some [(0, ''lib/'', ''L''), (1, ''app/'', ''M''), (1, ''app/foo'', ''F'')]\<rparr>))
            demo_world)
       = [(0, ''lib/'', ''L''), (1, ''app/'', ''M''), (1, ''app/foo'', ''F'')]"
    using t by blast
  have "fst (getRules demo_env (resetCR demo_watching) demo_world)
       = sort_Slice demo_env (LessThan demo_env)
           (rules demo_watching @ well_formed_rules demo_env demo_objects)"
    using t by blast
  then have b: "fst (getRules demo_env (resetCR demo_watching) demo_world)
       = [(0, ''lib/'', ''L''), (1, ''app/'', ''M''), (1, ''app/foo'', ''F'')]"
    by (simp add: demo_watching_def demo_handler_def demo_objects_def demo_env_def
        demo_NewRule_def insertion_sort_def demo_less_def)
  have c: "fst (getRules demo_env (resetCR (informer [] demo_watching)) demo_world) = [(1, ''app/'', ''M'')]"
    by (simp add: getRules_def resetCR_def informer_def demo_watching_def demo_handler_def
        demo_env_def insertion_sort_def Let_def)
  from s demo_watching_getRules a b c show ?thesis by blast
qed

text \<open>
  C8. A rebuild of the cache always returns: the list it returns holds the static rules
  and the rule of every listed object that converts, each as often as it occurs, provided
  \<^verbatim>\<open>sort.Slice\<close> permutes its input. Every object that does not convert is logged with
  its error and left out; each listed object is converted or logged.
\<close>

theorem malformed_objects_skipped:
  assumes "store h = Some objs" and "cr h = None"
    and "\<forall>xs. mset (sort_Slice env (LessThan env) xs) = mset xs"
    and "getRules env h wd = (l, h', wd')"
  shows "mset l = mset (rules h) + mset (well_formed_rules env objs)
         \<and> trace wd' = trace wd @ [Ev_getRules, Ev_List]
                          @ map (Ev_Log ''newImageRule'') (conversion_errors env objs)
         \<and> cr h' = Some l
         \<and> length (well_formed_rules env objs) + length (conversion_errors env objs) = length objs"
proof -
  have len: "length (well_formed_rules env objs) + length (conversion_errors env objs) = length objs"
    by (induction objs) (auto split: sum.splits)
  from assms(4) have "l = sort_Slice env (LessThan env) (rules h @ well_formed_rules env objs)"
    and "h' = h\<lparr>cr := Some l\<rparr>"
    and "trace wd' = trace wd @ [Ev_getRules, Ev_List]
                          @ map (Ev_Log ''newImageRule'') (conversion_errors env objs)"
    unfolding getRules_rebuild [OF assms(1,2)] by auto
  with assms(3) len show ?thesis
    by simp
qed

theorem malformed_objects_skipped_witness:
  "store demo_watching = Some demo_objects \<and> cr demo_watching = None
   \<and> getRules demo_env demo_watching demo_world
       = ([(0, ''lib/'', ''L''), (1, ''app/'', ''M''), (1, ''app/foo'', ''F'')],
          demo_watching\<lparr>cr := Some [(0, ''lib/'', ''L''), (1, ''app/'', ''M''), (1, ''app/foo'', ''F'')]\<rparr>,
          demo_world\<lparr>trace := [Ev_getRules, Ev_List, Ev_Log ''newImageRule'' (Error ''empty match'')]\<rparr>)
   \<and> mset [(0, ''lib/'', ''L''), (1, ''app/'', ''M''), (1, ''app/foo'', ''F'')]
       = mset (rules demo_watching) + mset (well_formed_rules demo_env demo_objects)
   \<and> well_formed_rules demo_env demo_objects = [(0, ''lib/'', ''L''), (1, ''app/foo'', ''F'')]
   \<and> conversion_errors demo_env demo_objects = [Error ''empty match'']"
proof -
  have s: "store demo_watching = Some demo_objects" and c: "cr demo_watching = None"
    by (simp_all add: demo_watching_def demo_handler_def)
  have w: "well_formed_rules demo_env demo_objects = [(0, ''lib/'', ''L''), (1, ''app/foo'', ''F'')]"
    and e: "conversion_errors demo_env demo_objects = [Error ''empty match'']"
    by (simp_all add: demo_objects_def demo_env_def demo_NewRule_def)
  from malformed_objects_skipped [OF s c demo_sort_permutes demo_watching_getRules]
  have "mset [(0, ''lib/'', ''L''), (1, ''app/'', ''M''), (1, ''app/foo'', ''F'')]
       = mset (rules demo_watching) + mset (well_formed_rules demo_env demo_objects)"
    by blast
  with s c w e demo_watching_getRules show ?thesis by blast
qed

subsection \<open>What a call of build leaves unchanged\<close>

lemma getRules_frame:
  assumes "getRules env h wd = (l, h', wd')"
  shows "buildMutex h' = buildMutex h \<and> image_b h' = image_b h \<and> rules h' = rules h
         \<and> store h' = store h \<and> clientset h' = clientset h
         \<and> mutexes wd' = mutexes wd \<and> nextMutex wd' = nextMutex wd \<and> files wd' = files wd
         \<and> builds (trace wd') = builds (trace wd)"
proof (cases h rule: getRules_cases)
  case static
  from assms show ?thesis unfolding getRules_static [OF static] by (auto simp: builds_append)
next
  case (cached objs c)
  from assms show ?thesis unfolding getRules_cached [OF cached] by (auto simp: builds_append)
next
  case (rebuild objs)
  from assms show ?thesis unfolding getRules_rebuild [OF rebuild] by (auto simp: builds_append)
qed

lemma getRules_fst:
  "store h' = store h \<Longrightarrow> cr h' = cr h \<Longrightarrow> rules h' = rules h \<Longrightarrow>
   fst (getRules env h' wd') = fst (getRules env h wd)"
  by (simp add: getRules_def Let_def convert_items_eq split: option.splits)

lemma match_rules_frame:
  "match_rules env b ref rs wd = (err, wd') \<Longrightarrow>
   mutexes wd' = mutexes wd \<and> nextMutex wd' = nextMutex wd"
proof (induction rs arbitrary: wd)
  case Nil
  then show ?case by auto
next
  case (Cons a rs)
  show ?case
  proof (cases "snd (Match env a ref)")
    case True
    with Cons.prems show ?thesis by (auto simp: Let_def split: prod.splits)
  next
    case False
    with Cons.prems have
      "match_rules env b ref rs (wd\<lparr>trace := trace wd @ [Ev_Match a ref]\<rparr>) = (err, wd')"
      by (simp add: Let_def split: prod.splits)
    from Cons.IH [OF this] show ?thesis by simp
  qed
qed

lemma build_locked_frame:
  assumes "build_locked env ref h wd = (err, h', wd')"
  shows "buildMutex h' = buildMutex h \<and> image_b h' = image_b h \<and> rules h' = rules h
         \<and> store h' = store h \<and> clientset h' = clientset h
         \<and> mutexes wd' = mutexes wd \<and> nextMutex wd' = nextMutex wd"
proof -
  obtain l h1 wd1 where g: "getRules env h wd = (l, h1, wd1)"
    by (cases "getRules env h wd")
  obtain e wd2 where m: "match_rules env (image_b h1) ref l wd1 = (e, wd2)"
    by (cases "match_rules env (image_b h1) ref l wd1")
  from assms have "h' = h1" "wd' = wd2" by (simp_all add: build_locked_def g m)
  with getRules_frame [OF g] match_rules_frame [OF m] show ?thesis by simp
qed

lemma build_locked_no_match:
  assumes "\<forall>r\<in>set (fst (getRules env h wd)). \<not> snd (Match env r ref)"
    and "build_locked env ref h wd = (err, h', wd')"
  shows "err = None \<and> files wd' = files wd \<and> builds (trace wd') = builds (trace wd)"
proof -
  obtain l h1 wd1 where g: "getRules env h wd = (l, h1, wd1)"
    by (cases "getRules env h wd")
  obtain e wd2 where m: "match_rules env (image_b h1) ref l wd1 = (e, wd2)"
    by (cases "match_rules env (image_b h1) ref l wd1")
  from assms(2) have eq: "err = e" "wd' = wd2" by (simp_all add: build_locked_def g m)
  from assms(1) g have "first_match env ref l = None"
    by (simp add: first_match_def find_None_iff)
  with match_rules_first [OF m] getRules_frame [OF g] eq show ?thesis by simp
qed

lemma build_creator:
  assumes "buildMutex h (ref_of img tag) = None"
  shows "build env img tag h wd =
     (case build_locked env (ref_of img tag)
             (h\<lparr>buildMutex := (buildMutex h)(ref_of img tag \<mapsto> nextMutex wd)\<rparr>)
             (wd\<lparr>mutexes := (mutexes wd)(nextMutex wd := new_RWMutex\<lparr>writer := True\<rparr>),
                 nextMutex := Suc (nextMutex wd)\<rparr>) of
        (err, h2, wd2) \<Rightarrow>
          Some (err, h2\<lparr>buildMutex := (buildMutex h2)(ref_of img tag := None)\<rparr>,
                wd2\<lparr>mutexes := (mutexes wd2)(nextMutex wd := new_RWMutex)\<rparr>))"
proof -
  obtain mx nx fs tr where wd: "wd = \<lparr>mutexes = mx, nextMutex = nx, files = fs, trace = tr\<rparr>"
    by (cases wd) simp
  let ?h1 = "h\<lparr>buildMutex := (buildMutex h)(ref_of img tag \<mapsto> nx)\<rparr>"
  let ?wd1 = "\<lparr>mutexes = mx(nx := \<lparr>writer = True, waiting = False, readers = 0\<rparr>),
                nextMutex = Suc nx, files = fs, trace = tr\<rparr>"
  obtain l h2 wd1 where g: "getRules env ?h1 ?wd1 = (l, h2, wd1)"
    by (cases "getRules env ?h1 ?wd1")
  obtain err wd2 where m: "match_rules env (image_b h2) (ref_of img tag) l wd1 = (err, wd2)"
    by (cases "match_rules env (image_b h2) (ref_of img tag) l wd1")
  have bl: "build_locked env (ref_of img tag) ?h1 ?wd1 = (err, h2, wd2)"
    by (simp add: build_locked_def g m)
  from build_locked_frame [OF bl]
  have "mutexes wd2 nx = \<lparr>writer = True, waiting = False, readers = 0\<rparr>"
    by simp
  with assms bl g m show ?thesis
    unfolding wd
    by (simp add: build_def eval_nat_numeral call_step_def new_call_def LoadOrStore_def
        rw_Lock_announce_def rw_Lock_acquire_def rw_Unlock_def new_RWMutex_def Let_def)
qed

lemma build_waiter:
  assumes "buildMutex h (ref_of img tag) = Some m" and "m < nextMutex wd"
  shows "build env img tag h wd =
     (if writer (mutexes wd m) \<or> waiting (mutexes wd m) then None
      else Some (None, h, wd\<lparr>mutexes := (mutexes wd)(nextMutex wd := new_RWMutex),
                             nextMutex := Suc (nextMutex wd)\<rparr>))"
proof -
  obtain mx nx fs tr where wd: "wd = \<lparr>mutexes = mx, nextMutex = nx, files = fs, trace = tr\<rparr>"
    by (cases wd) simp
  obtain bm ib rs c st cs where h: "h = \<lparr>buildMutex = bm, image_b = ib, rules = rs, cr = c,
      store = st, clientset = cs\<rparr>"
    by (cases h) simp
  from assms(2) have ne: "m \<noteq> nx" by (simp add: wd)
  have idem: "(mx(nx := new_RWMutex))(m := mx m) = mx(nx := new_RWMutex)"
    using ne by (simp add: fun_upd_idem_iff)
  show ?thesis
    using assms ne idem unfolding wd h
    by (simp add: build_def eval_nat_numeral call_step_def new_call_def LoadOrStore_def
        rw_RLock_def rw_RUnlock_def Let_def split: prod.splits)
qed

subsection \<open>Manifests\<close>

lemma serveManifest_frame:
  "serveManifest env w r p wd = (w', wd') \<Longrightarrow>
   files wd' = files wd \<and> calls_in (trace wd') = calls_in (trace wd)
   \<and> builds (trace wd') = builds (trace wd)"
  by (auto simp: serveManifest_def log_Error_def calls_in_def builds_append
      split: option.splits sum.splits)

lemma serveManifest_missing:
  "files wd p = None \<Longrightarrow> serveManifest env w r p wd = (http_NotFound w, wd)"
  by (simp add: serveManifest_def)

lemma status_NotFound: "status w = None \<Longrightarrow> status (http_NotFound w) = Some 404"
  by (simp add: http_NotFound_def http_Error_def Write_def WriteHeader_def Header_Set_def Let_def)

text \<open>
  C6. A manifest request whose reference value starts with \<open>sha256:\<close> is answered by
  \<open>serveManifest\<close> on the blob path of that value. The handler is unchanged, no file
  changes, and the trace gains log lines at most: no call of \<^verbatim>\<open>getRules\<close>, of a rule's
  \<open>Match\<close> or of \<open>Build\<close>, whatever the rules are.
\<close>

theorem digest_never_builds:
  assumes "strings_HasPrefix tag ''sha256:''"
  shows "\<exists>w' wd'. manifests env w r img tag h wd = Some (w', h, wd')
           \<and> serveManifest env w r (BlobsPath env (image_b h) tag) wd = (w', wd')
           \<and> calls_in (trace wd') = calls_in (trace wd)
           \<and> files wd' = files wd"
proof -
  obtain w' wd' where s: "serveManifest env w r (BlobsPath env (image_b h) tag) wd = (w', wd')"
    by (cases "serveManifest env w r (BlobsPath env (image_b h) tag) wd")
  from assms s have "manifests env w r img tag h wd = Some (w', h, wd')"
    by (simp add: manifests_def)
  with s serveManifest_frame [OF s] show ?thesis by blast
qed

theorem digest_never_builds_witness:
  "strings_HasPrefix ''sha256:0a'' ''sha256:''
   \<and> snd (Match demo_env (1, ''app/'', ''M'') (ref_of ''app/foo'' ''sha256:0a''))
   \<and> manifests demo_env empty_response (GET ''/v2/app/foo/manifests/sha256:0a'')
        ''app/foo'' ''sha256:0a'' demo_handler demo_world
       = Some (http_NotFound empty_response, demo_handler, demo_world)"
proof -
  have p: "strings_HasPrefix ''sha256:0a'' ''sha256:''"
    by (simp add: strings_HasPrefix_def)
  have m: "snd (Match demo_env (1, ''app/'', ''M'') (ref_of ''app/foo'' ''sha256:0a''))"
    by (simp add: demo_env_def demo_Match_def ref_of_def strings_HasPrefix_def)
  have s: "serveManifest demo_env empty_response (GET ''/v2/app/foo/manifests/sha256:0a'')
             (BlobsPath demo_env (image_b demo_handler) ''sha256:0a'') demo_world
           = (http_NotFound empty_response, demo_world)"
    by (rule serveManifest_missing) (simp add: demo_world_def)
  from digest_never_builds [OF p, of demo_env empty_response
      "GET ''/v2/app/foo/manifests/sha256:0a''" "''app/foo''" demo_handler demo_world]
  have "manifests demo_env empty_response (GET ''/v2/app/foo/manifests/sha256:0a'')
        ''app/foo'' ''sha256:0a'' demo_handler demo_world
       = Some (http_NotFound empty_response, demo_handler, demo_world)"
    unfolding s by auto
  with p m show ?thesis by blast
qed

text \<open>
  C7. Let the reference be no digest, its manifest file absent, and no rule of the list
  that \<^verbatim>\<open>getRules\<close> returns match it; let the call of \<open>build\<close> not have to wait (no
  entry for the reference, or an entry whose mutex no writer holds or waits for). Then
  \<open>build\<close>
  returns no error, calls no \<open>Build\<close> and leaves the files as they are, and the
  request is answered by \<^verbatim>\<open>http.NotFound\<close>: status 404 on a fresh response writer.
\<close>

theorem no_rule_no_manifest_not_found:
  assumes "\<not> strings_HasPrefix tag ''sha256:''"
    and "files wd (ManifestPath env (image_b h) img tag) = None"
    and "\<forall>r\<in>set (fst (getRules env h wd)). \<not> snd (Match env r (ref_of img tag))"
    and "case buildMutex h (ref_of img tag) of
           None \<Rightarrow> True
         | Some m \<Rightarrow>
             m < nextMutex wd \<and> \<not> writer (mutexes wd m) \<and> \<not> waiting (mutexes wd m)"
    and "status w = None"
  shows "\<exists>h' wd'. build env img tag h wd = Some (None, h', wd')
           \<and> builds (trace wd') = builds (trace wd)
           \<and> files wd' = files wd
           \<and> manifests env w r img tag h wd = Some (http_NotFound w, h', wd')
           \<and> status (http_NotFound w) = Some 404"
proof -
  have b: "\<exists>h' wd'. build env img tag h wd = Some (None, h', wd')
           \<and> builds (trace wd') = builds (trace wd) \<and> files wd' = files wd
           \<and> image_b h' = image_b h"
  proof (cases "buildMutex h (ref_of img tag)")
    case None
    let ?h1 = "h\<lparr>buildMutex := (buildMutex h)(ref_of img tag \<mapsto> nextMutex wd)\<rparr>"
    let ?wd1 = "wd\<lparr>mutexes := (mutexes wd)(nextMutex wd := new_RWMutex\<lparr>writer := True\<rparr>),
                 nextMutex := Suc (nextMutex wd)\<rparr>"
    obtain err h2 wd2 where bl: "build_locked env (ref_of img tag) ?h1 ?wd1 = (err, h2, wd2)"
      by (cases "build_locked env (ref_of img tag) ?h1 ?wd1")
    have "fst (getRules env ?h1 ?wd1) = fst (getRules env h wd)"
      by (rule getRules_fst) simp_all
    with assms(3) have "\<forall>r\<in>set (fst (getRules env ?h1 ?wd1)). \<not> snd (Match env r (ref_of img tag))"
      by simp
    from build_locked_no_match [OF this bl] build_locked_frame [OF bl]
    have "err = None" "files wd2 = files wd" "builds (trace wd2) = builds (trace wd)"
      "image_b h2 = image_b h" by simp_all
    then show ?thesis
      unfolding build_creator [OF None] bl by simp
  next
    case (Some m)
    with assms(4) have "m < nextMutex wd" "\<not> writer (mutexes wd m)"
      "\<not> waiting (mutexes wd m)" by simp_all
    then show ?thesis
      unfolding build_waiter [OF Some \<open>m < nextMutex wd\<close>] by simp
  qed
  then obtain h' wd' where b': "build env img tag h wd = Some (None, h', wd')"
    and tr: "builds (trace wd') = builds (trace wd)" and fs: "files wd' = files wd"
    and ib: "image_b h' = image_b h" by blast
  from assms(2) fs ib have "files wd' (ManifestPath env (image_b h') img tag) = None" by simp
  from serveManifest_missing [OF this, of env w r]
  have "manifests env w r img tag h wd = Some (http_NotFound w, h', wd')"
    using assms(1,2) b' by (simp add: manifests_def)
  with b' tr fs status_NotFound [OF assms(5)] show ?thesis by blast
qed

theorem no_rule_no_manifest_witness:
  "\<not> strings_HasPrefix ''v1'' ''sha256:''
   \<and> files demo_world (ManifestPath demo_env (image_b demo_handler) ''lib/x'' ''v1'') = None
   \<and> fst (getRules demo_env demo_handler demo_world) = [(1, ''app/'', ''M'')]
   \<and> \<not> snd (Match demo_env (1, ''app/'', ''M'') (ref_of ''lib/x'' ''v1''))
   \<and> buildMutex demo_handler (ref_of ''lib/x'' ''v1'') = None
   \<and> (\<exists>h' wd'. build demo_env ''lib/x'' ''v1'' demo_handler demo_world = Some (None, h', wd')
         \<and> builds (trace wd') = []
         \<and> files wd' = Map.empty
         \<and> manifests demo_env empty_response (GET ''/v2/lib/x/manifests/v1'') ''lib/x'' ''v1''
              demo_handler demo_world = Some (http_NotFound empty_response, h', wd'))
   \<and> status (http_NotFound empty_response) = Some 404"
proof -
  have p: "\<not> strings_HasPrefix ''v1'' ''sha256:''"
    by (simp add: strings_HasPrefix_def)
  have f: "files demo_world (ManifestPath demo_env (image_b demo_handler) ''lib/x'' ''v1'') = None"
    by (simp add: demo_world_def)
  have g: "fst (getRules demo_env demo_handler demo_world) = [(1, ''app/'', ''M'')]"
    by (simp add: getRules_def demo_handler_def)
  have m: "\<not> snd (Match demo_env (1, ''app/'', ''M'') (ref_of ''lib/x'' ''v1''))"
    by (simp add: demo_env_def demo_Match_def ref_of_def strings_HasPrefix_def)
  have n: "\<forall>r\<in>set (fst (getRules demo_env demo_handler demo_world)).
             \<not> snd (Match demo_env r (ref_of ''lib/x'' ''v1''))"
    unfolding g using m by simp
  have b: "buildMutex demo_handler (ref_of ''lib/x'' ''v1'') = None"
    by (simp add: demo_handler_def)
  have i: "case buildMutex demo_handler (ref_of ''lib/x'' ''v1'') of
             None \<Rightarrow> True
           | Some m \<Rightarrow>
               m < nextMutex demo_world \<and> \<not> writer (mutexes demo_world m)
               \<and> \<not> waiting (mutexes demo_world m)"
    unfolding b by simp
  have e: "status empty_response = None"
    by (simp add: empty_response_def)
  from no_rule_no_manifest_not_found [OF p f n i e,
      of "GET ''/v2/lib/x/manifests/v1''"]
  have "(\<exists>h' wd'. build demo_env ''lib/x'' ''v1'' demo_handler demo_world = Some (None, h', wd')
         \<and> builds (trace wd') = []
         \<and> files wd' = Map.empty
         \<and> manifests demo_env empty_response (GET ''/v2/lib/x/manifests/v1'') ''lib/x'' ''v1''
              demo_handler demo_world = Some (http_NotFound empty_response, h', wd'))
   \<and> status (http_NotFound empty_response) = Some 404"
    by (simp add: demo_world_def) blast
  with p f g m b show ?thesis by blast
qed

subsection \<open>Steps of a call\<close>

lemma call_step_cases [consumes 1, case_names stored loaded rlock runlock announce acquire
    getrules loop delete unlock]:
  assumes "call_step env c h wd = Some (c', h', wd')"
  obtains
    "pc c = At_LoadOrStore" "buildMutex h (ref_of_call c) = None"
      "c' = c\<lparr>pc := At_Lock, mut := nextMutex wd, ok := False\<rparr>"
      "h' = h\<lparr>buildMutex := (buildMutex h)(ref_of_call c \<mapsto> nextMutex wd)\<rparr>"
      "wd' = wd\<lparr>mutexes := (mutexes wd)(nextMutex wd := new_RWMutex), nextMutex := Suc (nextMutex wd)\<rparr>"
  | m where "pc c = At_LoadOrStore" "buildMutex h (ref_of_call c) = Some m"
      "c' = c\<lparr>pc := At_RLock, mut := m, ok := True\<rparr>"
      "h' = h"
      "wd' = wd\<lparr>mutexes := (mutexes wd)(nextMutex wd := new_RWMutex), nextMutex := Suc (nextMutex wd)\<rparr>"
  | "pc c = At_RLock" "\<not> writer (mutexes wd (mut c))" "\<not> waiting (mutexes wd (mut c))"
      "c' = c\<lparr>pc := At_RUnlock\<rparr>" "h' = h"
      "wd' = wd\<lparr>mutexes := (mutexes wd)(mut c := (mutexes wd (mut c))\<lparr>readers := Suc (readers (mutexes wd (mut c)))\<rparr>)\<rparr>"
  | "pc c = At_RUnlock" "0 < readers (mutexes wd (mut c))"
      "c' = c\<lparr>pc := Returned, ret := None\<rparr>" "h' = h"
      "wd' = wd\<lparr>mutexes := (mutexes wd)(mut c := (mutexes wd (mut c))\<lparr>readers := readers (mutexes wd (mut c)) - 1\<rparr>)\<rparr>"
  | "pc c = At_Lock" "\<not> writer (mutexes wd (mut c))" "\<not> waiting (mutexes wd (mut c))"
      "c' = c\<lparr>pc := In_Lock\<rparr>" "h' = h"
      "wd' = wd\<lparr>mutexes := (mutexes wd)(mut c := (mutexes wd (mut c))\<lparr>waiting := True\<rparr>)\<rparr>"
  | "pc c = In_Lock" "readers (mutexes wd (mut c)) = 0"
      "c' = c\<lparr>pc := At_getRules\<rparr>" "h' = h"
      "wd' = wd\<lparr>mutexes := (mutexes wd)(mut c := (mutexes wd (mut c))\<lparr>writer := True, waiting := False\<rparr>)\<rparr>"
  | rs where "pc c = At_getRules" "getRules env h wd = (rs, h', wd')"
      "c' = c\<lparr>pc := At_Loop, rules_l := rs\<rparr>"
  | err where "pc c = At_Loop"
      "match_rules env (image_b h) (ref_of_call c) (rules_l c) wd = (err, wd')"
      "c' = c\<lparr>pc := At_Delete, ret := err\<rparr>" "h' = h"
  | "pc c = At_Delete"
      "c' = c\<lparr>pc := At_Unlock\<rparr>"
      "h' = h\<lparr>buildMutex := (buildMutex h)(ref_of_call c := None)\<rparr>" "wd' = wd"
  | "pc c = At_Unlock" "writer (mutexes wd (mut c))"
      "c' = c\<lparr>pc := Returned\<rparr>" "h' = h"
      "wd' = wd\<lparr>mutexes := (mutexes wd)(mut c := (mutexes wd (mut c))\<lparr>writer := False\<rparr>)\<rparr>"
proof (cases "pc c")
  case At_LoadOrStore
  show ?thesis
  proof (cases "buildMutex h (ref_of_call c)")
    case None
    have "c' = c\<lparr>pc := At_Lock, mut := nextMutex wd, ok := False\<rparr>"
      and "h' = h\<lparr>buildMutex := (buildMutex h)(ref_of_call c \<mapsto> nextMutex wd)\<rparr>"
      and "wd' = wd\<lparr>mutexes := (mutexes wd)(nextMutex wd := new_RWMutex), nextMutex := Suc (nextMutex wd)\<rparr>"
      using assms At_LoadOrStore None
      by (simp_all add: call_step_def LoadOrStore_def ref_of_call_def Let_def)
    then show ?thesis by (rule that(1) [OF At_LoadOrStore None])
  next
    case (Some m)
    have "c' = c\<lparr>pc := At_RLock, mut := m, ok := True\<rparr>" and "h' = h"
      and "wd' = wd\<lparr>mutexes := (mutexes wd)(nextMutex wd := new_RWMutex), nextMutex := Suc (nextMutex wd)\<rparr>"
      using assms At_LoadOrStore Some
      by (simp_all add: call_step_def LoadOrStore_def ref_of_call_def Let_def)
    then show ?thesis by (rule that(2) [OF At_LoadOrStore Some])
  qed
next
  case At_RLock
  have "\<not> writer (mutexes wd (mut c))" and "\<not> waiting (mutexes wd (mut c))"
    and "c' = c\<lparr>pc := At_RUnlock\<rparr>" and "h' = h"
    and "wd' = wd\<lparr>mutexes := (mutexes wd)(mut c := (mutexes wd (mut c))\<lparr>readers := Suc (readers (mutexes wd (mut c)))\<rparr>)\<rparr>"
    using assms At_RLock
    by (simp_all add: call_step_def rw_RLock_def Let_def split: if_splits)
  then show ?thesis by (rule that(3) [OF At_RLock])
next
  case At_RUnlock
  have "0 < readers (mutexes wd (mut c))" and "c' = c\<lparr>pc := Returned, ret := None\<rparr>" and "h' = h"
    and "wd' = wd\<lparr>mutexes := (mutexes wd)(mut c := (mutexes wd (mut c))\<lparr>readers := readers (mutexes wd (mut c)) - 1\<rparr>)\<rparr>"
    using assms At_RUnlock
    by (simp_all add: call_step_def rw_RUnlock_def Let_def split: if_splits)
  then show ?thesis by (rule that(4) [OF At_RUnlock])
next
  case At_Lock
  have "\<not> writer (mutexes wd (mut c))" and "\<not> waiting (mutexes wd (mut c))"
    and "c' = c\<lparr>pc := In_Lock\<rparr>" and "h' = h"
    and "wd' = wd\<lparr>mutexes := (mutexes wd)(mut c := (mutexes wd (mut c))\<lparr>waiting := True\<rparr>)\<rparr>"
    using assms At_Lock
    by (simp_all add: call_step_def rw_Lock_announce_def Let_def split: if_splits)
  then show ?thesis by (rule that(5) [OF At_Lock])
next
  case In_Lock
  have "readers (mutexes wd (mut c)) = 0"
    and "c' = c\<lparr>pc := At_getRules\<rparr>" and "h' = h"
    and "wd' = wd\<lparr>mutexes := (mutexes wd)(mut c := (mutexes wd (mut c))\<lparr>writer := True, waiting := False\<rparr>)\<rparr>"
    using assms In_Lock
    by (simp_all add: call_step_def rw_Lock_acquire_def Let_def split: if_splits)
  then show ?thesis by (rule that(6) [OF In_Lock])
next
  case At_getRules
  obtain rs h1 wd1 where g: "getRules env h wd = (rs, h1, wd1)"
    by (cases "getRules env h wd")
  have "getRules env h wd = (rs, h', wd')"
    and "c' = c\<lparr>pc := At_Loop, rules_l := rs\<rparr>"
    using assms At_getRules g
    by (simp_all add: call_step_def Let_def)
  then show ?thesis by (rule that(7) [OF At_getRules])
next
  case At_Loop
  obtain err wd1 where m: "match_rules env (image_b h) (ref_of_call c) (rules_l c) wd = (err, wd1)"
    by (cases "match_rules env (image_b h) (ref_of_call c) (rules_l c) wd")
  have "match_rules env (image_b h) (ref_of_call c) (rules_l c) wd = (err, wd')"
    and "c' = c\<lparr>pc := At_Delete, ret := err\<rparr>" and "h' = h"
    using assms At_Loop m
    by (simp_all add: call_step_def ref_of_call_def Let_def)
  then show ?thesis by (rule that(8) [OF At_Loop])
next
  case At_Delete
  have "c' = c\<lparr>pc := At_Unlock\<rparr>"
    and "h' = h\<lparr>buildMutex := (buildMutex h)(ref_of_call c := None)\<rparr>" and "wd' = wd"
    using assms At_Delete
    by (simp_all add: call_step_def ref_of_call_def Let_def)
  then show ?thesis by (rule that(9) [OF At_Delete])
next
  case At_Unlock
  have "writer (mutexes wd (mut c))" and "c' = c\<lparr>pc := Returned\<rparr>" and "h' = h"
    and "wd' = wd\<lparr>mutexes := (mutexes wd)(mut c := (mutexes wd (mut c))\<lparr>writer := False\<rparr>)\<rparr>"
    using assms At_Unlock
    by (simp_all add: call_step_def rw_Unlock_def Let_def split: if_splits)
  then show ?thesis by (rule that(10) [OF At_Unlock])
next
  case Returned
  with assms show ?thesis
    by (simp add: call_step_def)
qed

subsection \<open>Sorted rule lists\<close>

lemma set_insert_behind: "set (insert_behind lt x ys) = insert x (set ys)"
  by (induction ys) auto

lemma sorted_insert_behind:
  "sorted_wrt (\<lambda>a b. \<not> key b < key a) ys \<Longrightarrow>
   sorted_wrt (\<lambda>a b. \<not> key b < key a) (insert_behind (\<lambda>a b. key a < key b) x ys)"
  for key :: "'a \<Rightarrow> nat"
  by (induction ys) (auto simp: set_insert_behind)

lemma sorted_foldl_insert_behind:
  "sorted_wrt (\<lambda>a b. \<not> key b < key a) acc \<Longrightarrow>
   sorted_wrt (\<lambda>a b. \<not> key b < key a)
     (foldl (\<lambda>acc x. insert_behind (\<lambda>a b. key a < key b) x acc) acc xs)"
  for key :: "'a \<Rightarrow> nat"
  by (induction xs arbitrary: acc) (auto simp: sorted_insert_behind)

lemma demo_less_fst: "demo_less = (\<lambda>a b. fst a < fst b)"
  by (simp add: demo_less_def fun_eq_iff)

lemma demo_env_sorts: "sort_Slice_sorts demo_env"
  unfolding sort_Slice_sorts_def precedence_sorted_def
  by (simp add: demo_env_def insertion_sort_def demo_less_fst
      mset_foldl_insert_behind sorted_foldl_insert_behind)

lemma getRules_sorted:
  assumes "sort_Slice_sorts env" and "lists_sorted env h" and "getRules env h wd = (l, h', wd')"
  shows "precedence_sorted env l \<and> lists_sorted env h'"
proof (cases h rule: getRules_cases)
  case static
  from assms(3) assms(2) show ?thesis
    unfolding getRules_static [OF static] by (auto simp: lists_sorted_def)
next
  case (cached objs c)
  from assms(3) assms(2) cached show ?thesis
    unfolding getRules_cached [OF cached] by (auto simp: lists_sorted_def)
next
  case (rebuild objs)
  from assms(1) have "precedence_sorted env (sort_Slice env (LessThan env) xs)" for xs
    by (simp add: sort_Slice_sorts_def)
  with assms(3) assms(2) show ?thesis
    unfolding getRules_rebuild [OF rebuild] by (auto simp: lists_sorted_def)
qed

lemma call_step_sorted:
  assumes "sort_Slice_sorts env" and "lists_sorted env h"
    and "call_step env c h wd = Some (c', h', wd')"
  shows "lists_sorted env h'"
  using assms(3)
proof (cases rule: call_step_cases)
  case (getrules rs)
  from getRules_sorted [OF assms(1,2) getrules(2)] show ?thesis by simp
qed (use assms(2) in \<open>simp_all add: lists_sorted_def\<close>)

lemma sys_step_sorted:
  assumes "sort_Slice_sorts env" and "lists_sorted env (handler s)"
    and "sys_step env a s = Some s'"
  shows "lists_sorted env (handler s')"
proof (cases a)
  case (Run t)
  with assms(3) obtain c1 h1 wd1 where
    "call_step env (calls s ! t) (handler s) (wld s) = Some (c1, h1, wd1)" and "handler s' = h1"
    by (auto simp: sys_step_def split: if_splits option.splits)
  with call_step_sorted [OF assms(1,2)] show ?thesis by simp
next
  case Reset
  with assms(2,3) show ?thesis
    by (auto simp: sys_step_def resetCR_def lists_sorted_def)
next
  case (Informer objs)
  with assms(2,3) show ?thesis
    by (auto simp: sys_step_def informer_def lists_sorted_def split: if_splits)
qed

lemma run_sorted:
  assumes "sort_Slice_sorts env"
  shows "lists_sorted env (handler s) \<Longrightarrow> run env as s = Some s' \<Longrightarrow> lists_sorted env (handler s')"
proof (induction as arbitrary: s)
  case Nil
  then show ?case by simp
next
  case (Cons a as)
  from Cons.prems(2) obtain s1 where s1: "sys_step env a s = Some s1" and r: "run env as s1 = Some s'"
    by (auto split: option.splits)
  from Cons.IH [OF sys_step_sorted [OF assms Cons.prems(1) s1] r] show ?case .
qed

lemma NewHandler_sorted:
  assumes "sort_Slice_sorts env" and "NewHandler env cache config cs = Inr h"
  shows "lists_sorted env h \<and> precedence_sorted env (rules h)
         \<and> (\<exists>rs. config_rules env config [] = Inr rs \<and> mset (rules h) = mset rs)"
  using assms
  by (auto simp: NewHandler_def lists_sorted_def sort_Slice_sorts_def split: sum.splits)

lemmas demo_defs =
  demo_env_def demo_handler_def demo_world_def demo_NewRule_def demo_less_def demo_Match_def
  demo_Build_def failing_handler_def two_calls_def insertion_sort_def

lemmas step_defs =
  sys_step_def call_step_def start_calls_def new_call_def LoadOrStore_def rw_Lock_announce_def
  rw_Lock_acquire_def rw_Unlock_def rw_RLock_def rw_RUnlock_def new_RWMutex_def getRules_def
  ref_of_def strings_HasPrefix_def Let_def observe_def

text \<open>
  C4 (as amended). Let \<^verbatim>\<open>sort.Slice\<close> sort by the rules' comparison. Then the static
  list of a handler that \<^verbatim>\<open>NewHandler\<close> returns is sorted by that comparison and holds
  the converted configuration entries, each as often; the list a rebuild of the cache
  returns is sorted and holds the static rules and the well-formed rules of the listing;
  and whatever the goroutines did since construction, the list \<^verbatim>\<open>getRules\<close> returns is
  sorted. Nothing is said of the order of rules that compare equal.
\<close>

theorem rule_lists_sorted:
  assumes "sort_Slice_sorts env"
  shows "(NewHandler env cache config cs = Inr h \<longrightarrow>
            precedence_sorted env (rules h)
            \<and> (\<exists>rs. config_rules env config [] = Inr rs \<and> mset (rules h) = mset rs))
         \<and> (store h0 = Some objs \<and> cr h0 = None \<longrightarrow>
              precedence_sorted env (fst (getRules env h0 wd0))
              \<and> mset (fst (getRules env h0 wd0)) = mset (rules h0) + mset (well_formed_rules env objs))
         \<and> (NewHandler env cache config cs = Inr h \<and> run env as (start_calls h wd reqs) = Some s \<longrightarrow>
              precedence_sorted env (fst (getRules env (handler s) (wld s))))"
proof -
  have a: "precedence_sorted env (rules h)
        \<and> (\<exists>rs. config_rules env config [] = Inr rs \<and> mset (rules h) = mset rs)"
    if "NewHandler env cache config cs = Inr h"
    using NewHandler_sorted [OF assms that] by simp
  have b: "precedence_sorted env (fst (getRules env h0 wd0))
           \<and> mset (fst (getRules env h0 wd0)) = mset (rules h0) + mset (well_formed_rules env objs)"
    if "store h0 = Some objs \<and> cr h0 = None"
  proof -
    from that have "fst (getRules env h0 wd0)
        = sort_Slice env (LessThan env) (rules h0 @ well_formed_rules env objs)"
      by (simp add: getRules_rebuild)
    with assms show ?thesis
      by (simp add: sort_Slice_sorts_def)
  qed
  have c: "precedence_sorted env (fst (getRules env (handler s) (wld s)))"
    if "NewHandler env cache config cs = Inr h \<and> run env as (start_calls h wd reqs) = Some s"
  proof -
    from that have n: "NewHandler env cache config cs = Inr h" by simp
    from NewHandler_sorted [OF assms n] have "lists_sorted env (handler (start_calls h wd reqs))"
      by (simp add: start_calls_def)
    from run_sorted [OF assms this] that have inv: "lists_sorted env (handler s)" by blast
    obtain l h' wd' where g: "getRules env (handler s) (wld s) = (l, h', wd')"
      by (cases "getRules env (handler s) (wld s)")
    from getRules_sorted [OF assms inv g] g show ?thesis by simp
  qed
  from a b c show ?thesis by blast
qed

theorem rule_lists_sorted_witness:
  "\<exists>s. sort_Slice_sorts demo_env
       \<and> NewHandler demo_env ''cache'' [(2, ''b'', ''B''), (1, ''a'', ''A'')] True = Inr sorted_handler
       \<and> precedence_sorted demo_env [(1, ''a'', ''A''), (2, ''b'', ''B'')]
       \<and> store demo_watching = Some demo_objects \<and> cr demo_watching = None
       \<and> precedence_sorted demo_env (fst (getRules demo_env demo_watching demo_world))
       \<and> run demo_env [Informer demo_objects, Run 0, Run 0, Run 0, Run 0]
            (start_calls sorted_handler demo_world [(''a/x'', ''v1'')]) = Some s
       \<and> cr (handler s) = Some [(0, ''lib/'', ''L''), (1, ''a'', ''A''), (1, ''app/foo'', ''F''), (2, ''b'', ''B'')]
       \<and> precedence_sorted demo_env (fst (getRules demo_env (handler s) (wld s)))"
proof -
  have n: "NewHandler demo_env ''cache'' [(2, ''b'', ''B''), (1, ''a'', ''A'')] True = Inr sorted_handler"
    by (simp add: NewHandler_def sorted_handler_def demo_defs)
  have s: "store demo_watching = Some demo_objects \<and> cr demo_watching = None"
    by (simp add: demo_watching_def demo_handler_def)
  have "\<exists>s. run demo_env [Informer demo_objects, Run 0, Run 0, Run 0, Run 0]
            (start_calls sorted_handler demo_world [(''a/x'', ''v1'')]) = Some s
       \<and> cr (handler s) = Some [(0, ''lib/'', ''L''), (1, ''a'', ''A''), (1, ''app/foo'', ''F''), (2, ''b'', ''B'')]"
    by (simp add: sorted_handler_def demo_objects_def informer_def log_Error_def demo_defs step_defs)
  then obtain s where r: "run demo_env [Informer demo_objects, Run 0, Run 0, Run 0, Run 0]
            (start_calls sorted_handler demo_world [(''a/x'', ''v1'')]) = Some s"
    and c: "cr (handler s) = Some [(0, ''lib/'', ''L''), (1, ''a'', ''A''), (1, ''app/foo'', ''F''), (2, ''b'', ''B'')]"
    by blast
  note t = rule_lists_sorted [OF demo_env_sorts, of "''cache''"
      "[(2, ''b'', ''B''), (1, ''a'', ''A'')]" True sorted_handler demo_watching demo_objects
      demo_world "[Informer demo_objects, Run 0, Run 0, Run 0, Run 0]" demo_world "[(''a/x'', ''v1'')]" s]
  from t n have a: "precedence_sorted demo_env [(1, ''a'', ''A''), (2, ''b'', ''B'')]"
    by (simp add: sorted_handler_def)
  from t s have b: "precedence_sorted demo_env (fst (getRules demo_env demo_watching demo_world))"
    by blast
  from t n r have d: "precedence_sorted demo_env (fst (getRules demo_env (handler s) (wld s)))"
    by blast
  from demo_env_sorts n a s b r c d show ?thesis by blast
qed

lemma go_sort_tied: "go_sort_Slice fb demo_less tied_rules = Some tied_sorted"
  unfolding go_sort_Slice_def tied_rules_def tied_sorted_def by code_simp

lemma go_config_tied: "config_rules (go_env fb) tied_rules [] = Inr tied_rules"
  by (simp add: tied_rules_def go_env_def demo_env_def demo_NewRule_def)

lemma go_merged_tied:
  "rules tied_watching @ well_formed_rules (go_env fb) (the (store tied_watching)) = tied_rules"
  by (simp add: tied_watching_def tied_rules_def go_env_def demo_env_def demo_NewRule_def)

text \<open>
  C4 as stated fails: Go's \<^verbatim>\<open>sort.Slice\<close> does not keep rules that compare equal in
  their input order. For thirteen configuration entries, twelve with the same key and
  then one with a smaller key, the list that \<^verbatim>\<open>NewHandler\<close> stores is sorted by the
  key, but of the twelve rules that compare equal the seventh stands first and the first
  stands behind five that followed it in the input; and the same list comes out of a
  rebuild of the cache for the first of them as the static rule and the other twelve
  listed by the store. This holds whatever the two fallbacks of the sort do, which this
  input does not reach.
\<close>

theorem stable_ties_counterexample:
  "\<forall>fb. go_sort_Slice fb demo_less tied_rules = Some tied_sorted
       \<and> NewHandler (go_env fb) ''cache'' tied_rules False
           = Inr \<lparr>buildMutex = Map.empty, image_b = ''cache'', rules = tied_sorted, cr = None,
                  store = None, clientset = False\<rparr>
       \<and> precedence_sorted (go_env fb) tied_sorted
       \<and> mset tied_sorted = mset tied_rules
       \<and> \<not> LessThan (go_env fb) (1, ''a/'', ''A'') (1, ''g/'', ''G'')
       \<and> \<not> LessThan (go_env fb) (1, ''g/'', ''G'') (1, ''a/'', ''A'')
       \<and> filter (\<lambda>y. y = (1, ''a/'', ''A'') \<or> y = (1, ''g/'', ''G'')) tied_rules
           = [(1, ''a/'', ''A''), (1, ''g/'', ''G'')]
       \<and> filter (\<lambda>y. y = (1, ''a/'', ''A'') \<or> y = (1, ''g/'', ''G'')) tied_sorted
           = [(1, ''g/'', ''G''), (1, ''a/'', ''A'')]
       \<and> \<not> ties_in_input_order (go_env fb) tied_rules tied_sorted
       \<and> rules tied_watching @ well_formed_rules (go_env fb) (the (store tied_watching))
           = tied_rules
       \<and> fst (getRules (go_env fb) tied_watching demo_world) = tied_sorted"
proof
  fix fb :: "demo_rule fallbacks"
  have l: "LessThan (go_env fb) = demo_less"
    by (simp add: go_env_def demo_env_def)
  have s: "sort_Slice (go_env fb) demo_less tied_rules = tied_sorted"
    by (simp add: go_env_def go_sort_tied)
  have n: "NewHandler (go_env fb) ''cache'' tied_rules False
           = Inr \<lparr>buildMutex = Map.empty, image_b = ''cache'', rules = tied_sorted, cr = None,
                  store = None, clientset = False\<rparr>"
    unfolding NewHandler_def go_config_tied
    by (simp add: go_env_def demo_env_def go_sort_tied)
  have p: "precedence_sorted (go_env fb) tied_sorted"
    unfolding precedence_sorted_def l by (simp add: tied_sorted_def demo_less_def)
  have m: "mset tied_sorted = mset tied_rules"
    by (simp add: tied_sorted_def tied_rules_def)
  have e: "\<not> LessThan (go_env fb) (1, ''a/'', ''A'') (1, ''g/'', ''G'')"
    "\<not> LessThan (go_env fb) (1, ''g/'', ''G'') (1, ''a/'', ''A'')"
    unfolding l by (simp_all add: demo_less_def)
  have f: "filter (\<lambda>y. y = (1, ''a/'', ''A'') \<or> y = (1, ''g/'', ''G'')) tied_rules
           = [(1, ''a/'', ''A''), (1, ''g/'', ''G'')]"
    "filter (\<lambda>y. y = (1, ''a/'', ''A'') \<or> y = (1, ''g/'', ''G'')) tied_sorted
           = [(1, ''g/'', ''G''), (1, ''a/'', ''A'')]"
    by (simp_all add: tied_rules_def tied_sorted_def)
  have "(1, ''a/'', ''A'') \<in> set tied_rules"
    by (simp add: tied_rules_def)
  moreover have "filter (\<lambda>y. \<not> demo_less (1, ''a/'', ''A'') y \<and> \<not> demo_less y (1, ''a/'', ''A'')) tied_sorted
      \<noteq> filter (\<lambda>y. \<not> demo_less (1, ''a/'', ''A'') y \<and> \<not> demo_less y (1, ''a/'', ''A'')) tied_rules"
    by (simp add: tied_rules_def tied_sorted_def demo_less_def)
  ultimately have t: "\<not> ties_in_input_order (go_env fb) tied_rules tied_sorted"
    unfolding ties_in_input_order_def l by blast
  note g = go_merged_tied [of fb]
  have w: "store tied_watching = Some (the (store tied_watching))" "cr tied_watching = None"
    by (simp_all add: tied_watching_def)
  have r: "fst (getRules (go_env fb) tied_watching demo_world) = tied_sorted"
    unfolding getRules_rebuild [OF w] g l s by simp
  from go_sort_tied n p m e f t g r
  show "go_sort_Slice fb demo_less tied_rules = Some tied_sorted
       \<and> NewHandler (go_env fb) ''cache'' tied_rules False
           = Inr \<lparr>buildMutex = Map.empty, image_b = ''cache'', rules = tied_sorted, cr = None,
                  store = None, clientset = False\<rparr>
       \<and> precedence_sorted (go_env fb) tied_sorted
       \<and> mset tied_sorted = mset tied_rules
       \<and> \<not> LessThan (go_env fb) (1, ''a/'', ''A'') (1, ''g/'', ''G'')
       \<and> \<not> LessThan (go_env fb) (1, ''g/'', ''G'') (1, ''a/'', ''A'')
       \<and> filter (\<lambda>y. y = (1, ''a/'', ''A'') \<or> y = (1, ''g/'', ''G'')) tied_rules
           = [(1, ''a/'', ''A''), (1, ''g/'', ''G'')]
       \<and> filter (\<lambda>y. y = (1, ''a/'', ''A'') \<or> y = (1, ''g/'', ''G'')) tied_sorted
           = [(1, ''g/'', ''G''), (1, ''a/'', ''A'')]
       \<and> \<not> ties_in_input_order (go_env fb) tied_rules tied_sorted
       \<and> rules tied_watching @ well_formed_rules (go_env fb) (the (store tied_watching))
           = tied_rules
       \<and> fst (getRules (go_env fb) tied_watching demo_world) = tied_sorted"
    by (intro conjI)
qed


subsection \<open>What holds at any time, whatever the schedule\<close>

lemma match_rules_trace:
  "match_rules env b ref rs wd = (err, wd') \<Longrightarrow>
   (\<exists>ev. trace wd' = trace wd @ ev)
   \<and> (err \<noteq> None \<longrightarrow> (\<exists>m. Ev_Build ref m err \<in> set (trace wd')))"
proof (induction rs arbitrary: wd)
  case Nil
  then show ?case by auto
next
  case (Cons a rs)
  show ?case
  proof (cases "snd (Match env a ref)")
    case True
    with Cons.prems show ?thesis by (auto simp: Let_def split: prod.splits)
  next
    case False
    with Cons.prems have
      "match_rules env b ref rs (wd\<lparr>trace := trace wd @ [Ev_Match a ref]\<rparr>) = (err, wd')"
      by (simp add: Let_def split: prod.splits)
    from Cons.IH [OF this] show ?thesis by auto
  qed
qed

lemma getRules_trace:
  assumes "getRules env h wd = (l, h', wd')"
  shows "\<exists>ev. trace wd' = trace wd @ ev"
proof (cases h rule: getRules_cases)
  case static
  from assms show ?thesis unfolding getRules_static [OF static] by auto
next
  case (cached objs c)
  from assms show ?thesis unfolding getRules_cached [OF cached] by auto
next
  case (rebuild objs)
  from assms show ?thesis unfolding getRules_rebuild [OF rebuild] by auto
qed

lemma call_step_trace:
  assumes "call_step env c h wd = Some (c', h', wd')"
  shows "\<exists>ev. trace wd' = trace wd @ ev"
  using assms
proof (cases rule: call_step_cases)
  case (getrules rs)
  from getRules_trace [OF getrules(2)] show ?thesis .
next
  case (loop err)
  from match_rules_trace [OF loop(2)] show ?thesis by blast
qed simp_all

lemma call_consistent_mono: "call_consistent tr c \<Longrightarrow> call_consistent (tr @ ev) c"
  by (auto simp: call_consistent_def)

lemma call_step_consistent:
  assumes "call_consistent (trace wd) c" and "call_step env c h wd = Some (c', h', wd')"
  shows "call_consistent (trace wd') c'"
  using assms(2)
proof (cases rule: call_step_cases)
  case (getrules rs)
  with assms(1) show ?thesis
    by (auto simp: call_consistent_def in_section_def has_built_def)
next
  case (loop err)
  from match_rules_trace [OF loop(2)] assms(1) loop(1,3) show ?thesis
    by (auto simp: call_consistent_def in_section_def has_built_def ref_of_call_def)
qed (use assms(1) in \<open>auto simp: call_consistent_def in_section_def has_built_def ref_of_call_def\<close>)

lemma sys_step_consistent:
  assumes "\<forall>c\<in>set (calls s). call_consistent (trace (wld s)) c"
    and "sys_step env a s = Some s'"
  shows "\<forall>c\<in>set (calls s'). call_consistent (trace (wld s')) c"
proof (cases a)
  case (Run t)
  with assms(2) obtain c1 h1 wd1 where t: "t < length (calls s)"
    and st: "call_step env (calls s ! t) (handler s) (wld s) = Some (c1, h1, wd1)"
    and s': "s' = \<lparr>handler = h1, wld = wd1, calls = (calls s)[t := c1]\<rparr>"
    by (auto simp: sys_step_def split: if_splits option.splits)
  from t assms(1) have "call_consistent (trace (wld s)) (calls s ! t)" by simp
  from call_step_consistent [OF this st] have c1: "call_consistent (trace wd1) c1" .
  from call_step_trace [OF st] obtain ev where ev: "trace wd1 = trace (wld s) @ ev" by blast
  show ?thesis
  proof
    fix c assume "c \<in> set (calls s')"
    then have "c = c1 \<or> c \<in> set (calls s)"
      unfolding s' using set_update_subset_insert [of "calls s" t c1] by auto
    with c1 assms(1) call_consistent_mono [of "trace (wld s)" c ev]
    show "call_consistent (trace (wld s')) c"
      unfolding s' by (auto simp: ev)
  qed
next
  case Reset
  with assms show ?thesis by (auto simp: sys_step_def)
next
  case (Informer objs)
  with assms show ?thesis by (auto simp: sys_step_def split: if_splits)
qed

lemma start_consistent: "\<forall>c\<in>set (calls (start_calls h wd reqs)). call_consistent tr c"
  by (auto simp: start_calls_def new_call_def call_consistent_def in_section_def)

lemma call_step_ref:
  assumes "call_step env c h wd = Some (c', h', wd')"
  shows "ref_of_call c' = ref_of_call c"
  using assms by (cases rule: call_step_cases) (simp_all add: ref_of_call_def)

lemma call_step_registry:
  assumes "call_step env c h wd = Some (c', h', wd')"
    and "in_section c \<longrightarrow> buildMutex h (ref_of_call c) \<noteq> None"
  shows "(in_section c' \<longrightarrow> in_section c \<or> buildMutex h (ref_of_call c) = None)
         \<and> (in_section c' \<longrightarrow> buildMutex h' (ref_of_call c) \<noteq> None)
         \<and> (\<forall>r. r \<noteq> ref_of_call c \<longrightarrow> buildMutex h' r = buildMutex h r)
         \<and> (buildMutex h (ref_of_call c) \<noteq> None \<and> buildMutex h' (ref_of_call c) = None \<longrightarrow> in_section c)"
  using assms(1)
proof (cases rule: call_step_cases)
  case (getrules rs)
  from getRules_frame [OF getrules(2)] have "buildMutex h' = buildMutex h" by simp
  with getrules(1,3) assms(2) show ?thesis by (simp add: in_section_def)
qed (use assms(2) in \<open>auto simp: in_section_def\<close>)

lemma call_step_mutex:
  assumes "call_step env c h wd = Some (c', h', wd')"
  shows "nextMutex wd \<le> nextMutex wd'
         \<and> (allocated c' \<longrightarrow>
               (allocated c \<and> mut c' = mut c)
               \<or> (mut c' = nextMutex wd \<and> nextMutex wd' = Suc (nextMutex wd)))
         \<and> (\<forall>a. a \<noteq> nextMutex wd \<and> (pc c = At_LoadOrStore \<or> a \<noteq> mut c) \<longrightarrow>
                 mutexes wd' a = mutexes wd a)
         \<and> (pc c \<noteq> At_LoadOrStore \<and> pc c \<noteq> At_Unlock \<and> writer (mutexes wd (mut c)) \<longrightarrow>
               writer (mutexes wd' (mut c)))
         \<and> (holds_lock c' \<and> (holds_lock c \<longrightarrow> writer (mutexes wd (mut c))) \<longrightarrow>
               writer (mutexes wd' (mut c')))
         \<and> (pc c \<noteq> At_LoadOrStore \<and> pc c \<noteq> In_Lock \<and> waiting (mutexes wd (mut c)) \<longrightarrow>
               waiting (mutexes wd' (mut c)))
         \<and> (pc c' = In_Lock \<and> (pc c = In_Lock \<longrightarrow> waiting (mutexes wd (mut c))) \<longrightarrow>
               waiting (mutexes wd' (mut c')))"
  using assms
proof (cases rule: call_step_cases)
  case (getrules rs)
  from getRules_frame [OF getrules(2)]
  have "mutexes wd' = mutexes wd" "nextMutex wd' = nextMutex wd" by simp_all
  with getrules(1,3) show ?thesis by (simp add: allocated_def holds_lock_def)
next
  case (loop err)
  from match_rules_frame [OF loop(2)]
  have "mutexes wd' = mutexes wd" "nextMutex wd' = nextMutex wd" by simp_all
  with loop(1,3) show ?thesis by (simp add: allocated_def holds_lock_def)
qed (simp_all add: allocated_def holds_lock_def)

lemma made_by_cong:
  assumes "has_built c' = has_built c" and "ref_of_call c' = ref_of_call c"
    and "rules_l c' = rules_l c"
  shows "made_by env c' = made_by env c"
  unfolding made_by_def assms by (rule refl)

lemma call_step_builds:
  assumes "call_step env c h wd = Some (c', h', wd')"
    and "call_consistent (trace wd) c"
  shows "builds (trace wd')
           = builds (trace wd) @ (if pc c = At_Loop then made_by env c' else [])
         \<and> (pc c = At_Loop \<longrightarrow> made_by env c = [])
         \<and> (pc c \<noteq> At_Loop \<longrightarrow> made_by env c' = made_by env c)"
  using assms(1)
proof (cases rule: call_step_cases)
  case stored
  then have "made_by env c' = made_by env c"
    by (simp add: made_by_def has_built_def)
  with stored show ?thesis by simp
next
  case (loaded m)
  then have "made_by env c' = made_by env c"
    by (simp add: made_by_def has_built_def)
  with loaded show ?thesis by simp
next
  case rlock
  then have "made_by env c' = made_by env c"
    by (simp add: made_by_def has_built_def)
  with rlock show ?thesis by simp
next
  case runlock
  with assms(2) have "ok c" by (simp add: call_consistent_def)
  with runlock have "made_by env c' = made_by env c"
    by (simp add: made_by_def has_built_def)
  with runlock show ?thesis by simp
next
  case announce
  then have "made_by env c' = made_by env c"
    by (simp add: made_by_def has_built_def)
  with announce show ?thesis by simp
next
  case acquire
  then have "made_by env c' = made_by env c"
    by (simp add: made_by_def has_built_def)
  with acquire show ?thesis by simp
next
  case (getrules rs)
  from getRules_frame [OF getrules(2)] have "builds (trace wd') = builds (trace wd)" by simp
  with getrules(1,3) show ?thesis by (simp add: made_by_def has_built_def)
next
  case (loop err)
  from assms(2) loop(1) have nok: "\<not> ok c" by (simp add: call_consistent_def in_section_def)
  from loop(1) have "made_by env c = []" by (simp add: made_by_def has_built_def)
  moreover have "made_by env c'
      = (case first_match env (ref_of_call c) (rules_l c) of
           None \<Rightarrow> []
         | Some r \<Rightarrow> [(ref_of_call c, fst (Match env r (ref_of_call c)))])"
  proof -
    from loop(3) have r: "ref_of_call c' = ref_of_call c" "rules_l c' = rules_l c"
      by (simp_all add: ref_of_call_def)
    from nok loop(3) have "has_built c'" by (simp add: has_built_def)
    then show ?thesis unfolding made_by_def r by simp
  qed
  moreover from match_rules_first [OF loop(2)]
  have "builds (trace wd') = builds (trace wd)
      @ (case first_match env (ref_of_call c) (rules_l c) of
           None \<Rightarrow> []
         | Some r \<Rightarrow> [(ref_of_call c, fst (Match env r (ref_of_call c)))])"
    by (cases "first_match env (ref_of_call c) (rules_l c)") simp_all
  ultimately show ?thesis using loop(1) by simp
next
  case delete
  then have "made_by env c' = made_by env c"
    by (intro made_by_cong) (simp_all add: has_built_def ref_of_call_def)
  with delete show ?thesis by simp
next
  case unlock
  then have "made_by env c' = made_by env c"
    by (intro made_by_cong) (simp_all add: has_built_def ref_of_call_def)
  with unlock show ?thesis by simp
qed

lemma call_step_builds_mset:
  assumes "call_step env c h wd = Some (c', h', wd')"
    and "call_consistent (trace wd) c"
  shows "mset (builds (trace wd')) + mset (made_by env c)
           = mset (builds (trace wd)) + mset (made_by env c')"
  using call_step_builds [OF assms] by (cases "pc c = At_Loop") simp_all

lemma mset_concat_update:
  "t < length xs \<Longrightarrow>
   mset (concat (map f (xs[t := y]))) + mset (f (xs ! t))
     = mset (concat (map f xs)) + mset (f y)"
proof (induction xs arbitrary: t)
  case Nil
  then show ?case by simp
next
  case (Cons x xs)
  show ?case
  proof (cases t)
    case 0
    then show ?thesis by simp
  next
    case (Suc k)
    with Cons.prems have "k < length xs" by simp
    from Cons.IH [OF this] Suc show ?thesis by (simp add: ac_simps)
  qed
qed

lemma builds_preserved:
  fixes nb nb' b0 :: "'x multiset"
  assumes "nb = b0 + mset (concat (map f cs))" and "t < length cs"
    and "nb' + mset (f (cs ! t)) = nb + mset (f c')"
  shows "nb' = b0 + mset (concat (map f (cs[t := c'])))"
proof -
  from mset_concat_update [OF assms(2), of f c']
  have "b0 + mset (concat (map f (cs[t := c']))) + mset (f (cs ! t))
      = b0 + mset (concat (map f cs)) + mset (f c')"
    by (simp add: ac_simps)
  also have "\<dots> = nb' + mset (f (cs ! t))"
    using assms(1,3) by simp
  finally show ?thesis by simp
qed

lemma registry_preserved:
  fixes cs :: "'c list" and reg reg' :: "'k \<Rightarrow> 'v option"
  assumes i1: "\<forall>u<length cs. P (cs ! u) \<longrightarrow> reg (f (cs ! u)) \<noteq> None"
    and i2: "\<forall>u<length cs. \<forall>v<length cs. P (cs ! u) \<and> P (cs ! v) \<and> f (cs ! u) = f (cs ! v) \<longrightarrow> u = v"
    and t: "t < length cs"
    and r: "f c' = f (cs ! t)"
    and S1: "P c' \<longrightarrow> P (cs ! t) \<or> reg (f (cs ! t)) = None"
    and S2: "P c' \<longrightarrow> reg' (f (cs ! t)) \<noteq> None"
    and S3: "\<forall>x. x \<noteq> f (cs ! t) \<longrightarrow> reg' x = reg x"
    and S4: "reg (f (cs ! t)) \<noteq> None \<and> reg' (f (cs ! t)) = None \<longrightarrow> P (cs ! t)"
  shows "(\<forall>u<length cs. P (cs[t := c'] ! u) \<longrightarrow> reg' (f (cs[t := c'] ! u)) \<noteq> None)
         \<and> (\<forall>u<length cs. \<forall>v<length cs.
               P (cs[t := c'] ! u) \<and> P (cs[t := c'] ! v) \<and> f (cs[t := c'] ! u) = f (cs[t := c'] ! v)
               \<longrightarrow> u = v)"
proof (intro conjI allI impI)
  fix u assume u: "u < length cs" and p: "P (cs[t := c'] ! u)"
  show "reg' (f (cs[t := c'] ! u)) \<noteq> None"
  proof (cases "u = t")
    case True
    with p t S2 r show ?thesis by simp
  next
    case False
    with p have pu: "P (cs ! u)" by simp
    with i1 u have e: "reg (f (cs ! u)) \<noteq> None" by blast
    have "reg' (f (cs ! u)) \<noteq> None"
    proof (cases "f (cs ! u) = f (cs ! t)")
      case True
      show ?thesis
      proof
        assume "reg' (f (cs ! u)) = None"
        with e True S4 have "P (cs ! t)" by simp
        with i2 u t pu True have "u = t" by blast
        with False show False by simp
      qed
    next
      case False
      with S3 e show ?thesis by simp
    qed
    with False show ?thesis by simp
  qed
next
  fix u v assume u: "u < length cs" and v: "v < length cs"
    and a: "P (cs[t := c'] ! u) \<and> P (cs[t := c'] ! v) \<and> f (cs[t := c'] ! u) = f (cs[t := c'] ! v)"
  have one: "False" if w: "w < length cs" "w \<noteq> t" "P (cs ! w)" "P c'" "f (cs ! w) = f (cs ! t)" for w
  proof -
    from S1 that(4) have "P (cs ! t) \<or> reg (f (cs ! t)) = None" by simp
    then show False
    proof
      assume "P (cs ! t)"
      with i2 w(1) t w(3,5) have "w = t" by blast
      with w(2) show False by simp
    next
      assume "reg (f (cs ! t)) = None"
      moreover from i1 w(1,3) have "reg (f (cs ! w)) \<noteq> None" by blast
      ultimately show False using w(5) by simp
    qed
  qed
  show "u = v"
  proof (cases "u = t")
    case True
    show ?thesis
    proof (cases "v = t")
      case True
      with \<open>u = t\<close> show ?thesis by simp
    next
      case False
      with a True t r one [OF v False] show ?thesis by auto
    qed
  next
    case False
    show ?thesis
    proof (cases "v = t")
      case True
      with a False t r one [OF u False] show ?thesis by auto
    next
      case vf: False
      with a False i2 u v show ?thesis by auto
    qed
  qed
qed

lemma mutex_preserved:
  fixes cs :: "'c list" and mx mx' :: "nat \<Rightarrow> 'x" and m :: "'c \<Rightarrow> nat"
  assumes C1: "\<forall>u<length cs. L (cs ! u) \<longrightarrow> W (mx (m (cs ! u)))"
    and C2: "\<forall>u<length cs. A (cs ! u) \<longrightarrow> m (cs ! u) < n"
    and C3: "\<forall>u<length cs. \<forall>v<length cs. A (cs ! u) \<and> A (cs ! v) \<and> m (cs ! u) = m (cs ! v) \<longrightarrow> u = v"
    and LA: "\<forall>u<length cs. L (cs ! u) \<longrightarrow> A (cs ! u)"
    and t: "t < length cs"
    and M1: "n \<le> n'"
    and M2: "A c' \<longrightarrow> (A (cs ! t) \<and> m c' = m (cs ! t)) \<or> (m c' = n \<and> n' = Suc n)"
    and M3: "\<forall>a. a \<noteq> n \<and> (first \<or> a \<noteq> m (cs ! t)) \<longrightarrow> mx' a = mx a"
    and M4: "\<not> first \<and> \<not> U \<and> W (mx (m (cs ! t))) \<longrightarrow> W (mx' (m (cs ! t)))"
    and M5: "L c' \<and> (L (cs ! t) \<longrightarrow> W (mx (m (cs ! t)))) \<longrightarrow> W (mx' (m c'))"
    and UA: "U \<longrightarrow> A (cs ! t)"
  shows "(\<forall>u<length cs. L (cs[t := c'] ! u) \<longrightarrow> W (mx' (m (cs[t := c'] ! u))))
         \<and> (\<forall>u<length cs. A (cs[t := c'] ! u) \<longrightarrow> m (cs[t := c'] ! u) < n')
         \<and> (\<forall>u<length cs. \<forall>v<length cs.
               A (cs[t := c'] ! u) \<and> A (cs[t := c'] ! v) \<and> m (cs[t := c'] ! u) = m (cs[t := c'] ! v)
               \<longrightarrow> u = v)"
proof (intro conjI allI impI)
  fix u assume u: "u < length cs" and l: "L (cs[t := c'] ! u)"
  show "W (mx' (m (cs[t := c'] ! u)))"
  proof (cases "u = t")
    case True
    with l t C1 M5 show ?thesis by simp
  next
    case False
    with l have lu: "L (cs ! u)" by simp
    with C1 u have w: "W (mx (m (cs ! u)))" by blast
    from LA u lu have au: "A (cs ! u)" by blast
    with C2 u have ne: "m (cs ! u) \<noteq> n" by fastforce
    have "W (mx' (m (cs ! u)))"
    proof (cases "first \<or> m (cs ! u) \<noteq> m (cs ! t)")
      case True
      with M3 ne have "mx' (m (cs ! u)) = mx (m (cs ! u))" by blast
      with w show ?thesis by simp
    next
      case same: False
      have "\<not> U"
      proof
        assume U
        with UA have "A (cs ! t)" by simp
        with C3 u t au same have "u = t" by blast
        with False show False by simp
      qed
      with M4 same w show ?thesis by auto
    qed
    with False show ?thesis by simp
  qed
next
  fix u assume u: "u < length cs" and a: "A (cs[t := c'] ! u)"
  show "m (cs[t := c'] ! u) < n'"
  proof (cases "u = t")
    case True
    with a t M2 have "(A (cs ! t) \<and> m c' = m (cs ! t)) \<or> (m c' = n \<and> n' = Suc n)" by simp
    with C2 t M1 have "m c' < n'" by fastforce
    with True t show ?thesis by simp
  next
    case False
    with a C2 u M1 show ?thesis by fastforce
  qed
next
  fix u v assume u: "u < length cs" and v: "v < length cs"
    and a: "A (cs[t := c'] ! u) \<and> A (cs[t := c'] ! v) \<and> m (cs[t := c'] ! u) = m (cs[t := c'] ! v)"
  have one: "False" if w: "w < length cs" "w \<noteq> t" "A (cs ! w)" "A c'" "m (cs ! w) = m c'" for w
  proof -
    from M2 w(4) have "(A (cs ! t) \<and> m c' = m (cs ! t)) \<or> (m c' = n \<and> n' = Suc n)" by simp
    then show False
    proof
      assume "A (cs ! t) \<and> m c' = m (cs ! t)"
      with C3 w(1) t w(3,5) have "w = t" by auto
      with w(2) show False by simp
    next
      assume "m c' = n \<and> n' = Suc n"
      moreover from C2 w(1,3) have "m (cs ! w) < n" by blast
      ultimately show False using w(5) by simp
    qed
  qed
  show "u = v"
  proof (cases "u = t")
    case True
    show ?thesis
    proof (cases "v = t")
      case True
      with \<open>u = t\<close> show ?thesis by simp
    next
      case False
      with a True t one [OF v False] show ?thesis by auto
    qed
  next
    case False
    show ?thesis
    proof (cases "v = t")
      case True
      with a False t one [OF u False] show ?thesis by auto
    next
      case vf: False
      with a False C3 u v show ?thesis by auto
    qed
  qed
qed

lemma consistent_allocated:
  assumes "call_consistent tr c"
  shows "(holds_lock c \<longrightarrow> allocated c) \<and> (pc c = At_Unlock \<longrightarrow> allocated c)
         \<and> (pc c = In_Lock \<longrightarrow> allocated c)"
  using assms by (auto simp: call_consistent_def holds_lock_def allocated_def in_section_def)

lemma sys_step_coordinated:
  assumes "coordinated env b0 s" and "sys_step env a s = Some s'"
  shows "coordinated env b0 s'"
proof (cases a)
  case (Run t)
  with assms(2) obtain c1 h1 wd1 where t: "t < length (calls s)"
    and st: "call_step env (calls s ! t) (handler s) (wld s) = Some (c1, h1, wd1)"
    and s': "s' = \<lparr>handler = h1, wld = wd1, calls = (calls s)[t := c1]\<rparr>"
    by (auto simp: sys_step_def split: if_splits option.splits)
  from assms(1) have cons: "\<forall>c\<in>set (calls s). call_consistent (trace (wld s)) c"
    and reg: "registry_inv s" and mx: "mutex_inv s" and cnt: "builds_inv env b0 s"
    by (simp_all add: coordinated_def)
  from cons t have ct: "call_consistent (trace (wld s)) (calls s ! t)" by simp
  have cons': "\<forall>c\<in>set (calls s'). call_consistent (trace (wld s')) c"
    by (rule sys_step_consistent [OF cons assms(2)])
  have reg': "registry_inv s'"
  proof -
    from reg have i1: "\<forall>u<length (calls s). in_section (calls s ! u) \<longrightarrow>
        buildMutex (handler s) (ref_of_call (calls s ! u)) \<noteq> None"
      and i2: "\<forall>u<length (calls s). \<forall>v<length (calls s).
        in_section (calls s ! u) \<and> in_section (calls s ! v)
        \<and> ref_of_call (calls s ! u) = ref_of_call (calls s ! v) \<longrightarrow> u = v"
      by (simp_all add: registry_inv_def)
    from i1 t have "in_section (calls s ! t) \<longrightarrow>
        buildMutex (handler s) (ref_of_call (calls s ! t)) \<noteq> None" by simp
    note S = call_step_registry [OF st this]
    from registry_preserved [where P = in_section and f = ref_of_call
        and reg = "buildMutex (handler s)" and reg' = "buildMutex h1", OF i1 i2 t
        call_step_ref [OF st] S [THEN conjunct1] S [THEN conjunct2, THEN conjunct1]
        S [THEN conjunct2, THEN conjunct2, THEN conjunct1]
        S [THEN conjunct2, THEN conjunct2, THEN conjunct2]]
    show ?thesis
      unfolding registry_inv_def s' by simp
  qed
  have mx': "mutex_inv s'"
  proof -
    from mx have C1: "\<forall>u<length (calls s). holds_lock (calls s ! u) \<longrightarrow>
        writer (mutexes (wld s) (mut (calls s ! u)))"
      and C1': "\<forall>u<length (calls s). pc (calls s ! u) = In_Lock \<longrightarrow>
        waiting (mutexes (wld s) (mut (calls s ! u)))"
      and C2: "\<forall>u<length (calls s). allocated (calls s ! u) \<longrightarrow>
        mut (calls s ! u) < nextMutex (wld s)"
      and C3: "\<forall>u<length (calls s). \<forall>v<length (calls s).
        allocated (calls s ! u) \<and> allocated (calls s ! v)
        \<and> mut (calls s ! u) = mut (calls s ! v) \<longrightarrow> u = v"
      by (simp_all add: mutex_inv_def)
    from cons have LA: "\<forall>u<length (calls s). holds_lock (calls s ! u) \<longrightarrow> allocated (calls s ! u)"
      and LA': "\<forall>u<length (calls s). pc (calls s ! u) = In_Lock \<longrightarrow> allocated (calls s ! u)"
      using consistent_allocated by fastforce+
    from consistent_allocated [OF ct]
    have UA: "pc (calls s ! t) = At_Unlock \<longrightarrow> allocated (calls s ! t)"
      and UA': "pc (calls s ! t) = In_Lock \<longrightarrow> allocated (calls s ! t)" by simp_all
    note M = call_step_mutex [OF st]
    note M1 = M [THEN conjunct1]
    note M2 = M [THEN conjunct2, THEN conjunct1]
    note M3 = M [THEN conjunct2, THEN conjunct2, THEN conjunct1]
    note M4 = M [THEN conjunct2, THEN conjunct2, THEN conjunct2, THEN conjunct1]
    note M5 = M [THEN conjunct2, THEN conjunct2, THEN conjunct2, THEN conjunct2, THEN conjunct1]
    note M6 = M [THEN conjunct2, THEN conjunct2, THEN conjunct2, THEN conjunct2, THEN conjunct2,
        THEN conjunct1]
    note M7 = M [THEN conjunct2, THEN conjunct2, THEN conjunct2, THEN conjunct2, THEN conjunct2,
        THEN conjunct2]
    note W = mutex_preserved [where L = holds_lock and W = writer and A = allocated and m = mut
        and mx = "mutexes (wld s)" and mx' = "mutexes wd1"
        and first = "pc (calls s ! t) = At_LoadOrStore" and U = "pc (calls s ! t) = At_Unlock",
        OF C1 C2 C3 LA t M1 M2 M3 M4 M5 UA]
    note V = mutex_preserved [where L = "\<lambda>c. pc c = In_Lock" and W = waiting and A = allocated
        and m = mut and mx = "mutexes (wld s)" and mx' = "mutexes wd1"
        and first = "pc (calls s ! t) = At_LoadOrStore" and U = "pc (calls s ! t) = In_Lock",
        OF C1' C2 C3 LA' t M1 M2 M3 M6 M7 UA']
    from W V [THEN conjunct1] show ?thesis
      unfolding mutex_inv_def s' by simp
  qed
  have cnt': "builds_inv env b0 s'"
  proof -
    from builds_preserved [OF cnt [unfolded builds_inv_def] t call_step_builds_mset [OF st ct]]
    show ?thesis
      unfolding builds_inv_def s' by simp
  qed
  from cons' reg' mx' cnt' show ?thesis by (simp add: coordinated_def)
next
  case Reset
  with assms show ?thesis
    by (auto simp: sys_step_def resetCR_def coordinated_def registry_inv_def mutex_inv_def builds_inv_def)
next
  case (Informer objs)
  with assms show ?thesis
    by (auto simp: sys_step_def informer_def coordinated_def registry_inv_def mutex_inv_def
        builds_inv_def split: if_splits)
qed

lemma run_coordinated:
  "coordinated env b0 s \<Longrightarrow> run env as s = Some s' \<Longrightarrow> coordinated env b0 s'"
proof (induction as arbitrary: s)
  case Nil
  then show ?case by simp
next
  case (Cons a as)
  from Cons.prems(2) obtain s1 where s1: "sys_step env a s = Some s1" and r: "run env as s1 = Some s'"
    by (auto split: option.splits)
  from Cons.IH [OF sys_step_coordinated [OF Cons.prems(1) s1] r] show ?case .
qed

lemma start_coordinated: "coordinated env (builds (trace wd)) (start_calls h wd reqs)"
proof -
  have n: "calls (start_calls h wd reqs) ! t = new_call (fst (reqs ! t)) (snd (reqs ! t))"
    if "t < length reqs" for t
    using that by (simp add: start_calls_def case_prod_beta)
  have l: "length (calls (start_calls h wd reqs)) = length reqs"
    by (simp add: start_calls_def)
  have w: "wld (start_calls h wd reqs) = wd"
    by (simp add: start_calls_def)
  have "registry_inv (start_calls h wd reqs)"
    unfolding registry_inv_def l by (simp add: n new_call_def in_section_def)
  moreover have "mutex_inv (start_calls h wd reqs)"
    unfolding mutex_inv_def l by (simp add: n new_call_def holds_lock_def allocated_def)
  moreover have "concat (map (made_by env) (calls (start_calls h wd reqs))) = []"
    by (auto simp: start_calls_def made_by_def has_built_def new_call_def)
  then have "builds_inv env (builds (trace wd)) (start_calls h wd reqs)"
    unfolding builds_inv_def w by simp
  ultimately show ?thesis
    using start_consistent [of h wd reqs "trace wd"] by (simp add: coordinated_def w)
qed

subsection \<open>Who gets the error\<close>

lemma waiter_returns:
  assumes "t < length (calls s)" and "pc (calls s ! t) = At_RLock"
    and "\<not> writer (mutexes (wld s) (mut (calls s ! t)))"
    and "\<not> waiting (mutexes (wld s) (mut (calls s ! t)))"
  shows "\<exists>s'. run env [Run t, Run t] s = Some s' \<and> pc (calls s' ! t) = Returned
           \<and> ret (calls s' ! t) = None"
  using assms by (simp add: sys_step_def call_step_def rw_RLock_def rw_RUnlock_def)

lemma loop_step:
  assumes "t < length (calls s)" and "pc (calls s ! t) = At_Loop"
  shows "\<exists>s1. sys_step env (Run t) s = Some s1
           \<and> t < length (calls s1)
           \<and> pc (calls s1 ! t) = At_Delete
           \<and> mut (calls s1 ! t) = mut (calls s ! t)
           \<and> mutexes (wld s1) = mutexes (wld s)
           \<and> ret (calls s1 ! t)
               = (case first_match env (ref_of_call (calls s ! t)) (rules_l (calls s ! t)) of
                    None \<Rightarrow> None
                  | Some r \<Rightarrow>
                      fst (Build env (image_b (handler s)) (ref_of_call (calls s ! t))
                             (fst (Match env r (ref_of_call (calls s ! t)))) (files (wld s))))"
proof -
  let ?c = "calls s ! t"
  obtain err wd1 where
    m: "match_rules env (image_b (handler s)) (ref_of_call ?c) (rules_l ?c) (wld s) = (err, wd1)"
    by (cases "match_rules env (image_b (handler s)) (ref_of_call ?c) (rules_l ?c) (wld s)")
  have e: "err = (case first_match env (ref_of_call ?c) (rules_l ?c) of
                    None \<Rightarrow> None
                  | Some r \<Rightarrow>
                      fst (Build env (image_b (handler s)) (ref_of_call ?c)
                             (fst (Match env r (ref_of_call ?c))) (files (wld s))))"
  proof (cases "first_match env (ref_of_call ?c) (rules_l ?c)")
    case None
    with match_rules_first [OF m] show ?thesis by simp
  next
    case (Some r)
    with match_rules_first [OF m]
    have "(err, files wd1)
        = Build env (image_b (handler s)) (ref_of_call ?c) (fst (Match env r (ref_of_call ?c)))
            (files (wld s))"
      by simp
    then have "err = fst (Build env (image_b (handler s)) (ref_of_call ?c)
        (fst (Match env r (ref_of_call ?c))) (files (wld s)))"
      by (metis fst_conv)
    with Some show ?thesis by simp
  qed
  have "sys_step env (Run t) s
      = Some \<lparr>handler = handler s, wld = wd1,
              calls = (calls s)[t := ?c\<lparr>pc := At_Delete, ret := err\<rparr>]\<rparr>"
    using assms m by (simp add: sys_step_def call_step_def ref_of_call_def Let_def)
  moreover from match_rules_frame [OF m] have "mutexes wd1 = mutexes (wld s)" by simp
  ultimately show ?thesis
    using assms(1) e by simp
qed

lemma sys_step_after_loop:
  assumes "sys_step env a s = Some s'" and "t < length (calls s)"
    and "pc (calls s ! t) = At_Delete \<or> pc (calls s ! t) = At_Unlock \<or> pc (calls s ! t) = Returned"
  shows "t < length (calls s') \<and> ret (calls s' ! t) = ret (calls s ! t)
         \<and> (pc (calls s' ! t) = At_Delete \<or> pc (calls s' ! t) = At_Unlock
              \<or> pc (calls s' ! t) = Returned)"
proof (cases a)
  case (Run u)
  with assms(1) obtain c1 h1 wd1 where u: "u < length (calls s)"
    and st: "call_step env (calls s ! u) (handler s) (wld s) = Some (c1, h1, wd1)"
    and s': "s' = \<lparr>handler = h1, wld = wd1, calls = (calls s)[u := c1]\<rparr>"
    by (auto simp: sys_step_def split: if_splits option.splits)
  show ?thesis
  proof (cases "u = t")
    case True
    from st [unfolded True] assms(3)
    have "ret c1 = ret (calls s ! t)
        \<and> (pc c1 = At_Delete \<or> pc c1 = At_Unlock \<or> pc c1 = Returned)"
      by (cases rule: call_step_cases) auto
    with assms(2) True show ?thesis unfolding s' by simp
  next
    case False
    with assms(2,3) show ?thesis unfolding s' by simp
  qed
next
  case Reset
  with assms show ?thesis by (auto simp: sys_step_def)
next
  case (Informer objs)
  with assms show ?thesis by (auto simp: sys_step_def split: if_splits)
qed

lemma run_after_loop:
  "run env as s = Some s' \<Longrightarrow> t < length (calls s) \<Longrightarrow>
   pc (calls s ! t) = At_Delete \<or> pc (calls s ! t) = At_Unlock \<or> pc (calls s ! t) = Returned \<Longrightarrow>
   ret (calls s' ! t) = ret (calls s ! t)"
proof (induction as arbitrary: s)
  case Nil
  then show ?case by simp
next
  case (Cons a as)
  from Cons.prems(1) obtain s1 where s1: "sys_step env a s = Some s1" and r: "run env as s1 = Some s'"
    by (auto split: option.splits)
  note k = sys_step_after_loop [OF s1 Cons.prems(2,3)]
  from Cons.IH [OF r k [THEN conjunct1] k [THEN conjunct2, THEN conjunct2]] k
  show ?case by simp
qed

lemma deferred_steps:
  assumes "t < length (calls s)" and "pc (calls s ! t) = At_Delete"
    and "writer (mutexes (wld s) (mut (calls s ! t)))"
  shows "\<exists>s'. run env [Run t, Run t] s = Some s' \<and> pc (calls s' ! t) = Returned"
  using assms by (simp add: sys_step_def call_step_def rw_Unlock_def Let_def)

text \<open>
  C2. Whatever the schedule of the goroutines, from any number of calls that have just
  entered \<open>build\<close>:
  \<^item> a call that found the entry (\<open>ok\<close>) has no error at any time, so it returns none,
    whether the builder's \<open>Build\<close> failed or not;
  \<^item> a call that has an error stored the entry itself, and the error is what \<open>Build\<close>
    returned for its reference;
  \<^item> a call that stands before its loop stored the entry, and its step through the
    loop leaves as its result what \<open>Build\<close> returns for the mutation of the first rule
    that matches its reference in the list it got, or no error when no rule matches;
    whatever the goroutines do from then on, that stays its result, and its two deferred
    steps, \<^verbatim>\<open>Delete\<close> and \<^verbatim>\<open>Unlock\<close>, take it to its return;
  \<^item> a call that found the entry does return: once no writer holds its mutex or waits
    for it, its next two steps are \<^verbatim>\<open>RLock\<close> and the deferred \<^verbatim>\<open>RUnlock\<close>, and it
    returns no error.
\<close>

theorem errors_only_to_builder:
  assumes "run env as (start_calls h wd reqs) = Some s" and "t < length (calls s)"
  shows "(ok (calls s ! t) \<longrightarrow> ret (calls s ! t) = None)
         \<and> (ret (calls s ! t) \<noteq> None \<longrightarrow>
               \<not> ok (calls s ! t)
               \<and> (\<exists>m. Ev_Build (ref_of_call (calls s ! t)) m (ret (calls s ! t)) \<in> set (trace (wld s))))
         \<and> (pc (calls s ! t) = At_Loop \<longrightarrow>
               \<not> ok (calls s ! t)
               \<and> (\<exists>s1. sys_step env (Run t) s = Some s1
                     \<and> ret (calls s1 ! t)
                         = (case first_match env (ref_of_call (calls s ! t)) (rules_l (calls s ! t)) of
                              None \<Rightarrow> None
                            | Some r \<Rightarrow>
                                fst (Build env (image_b (handler s)) (ref_of_call (calls s ! t))
                                       (fst (Match env r (ref_of_call (calls s ! t))))
                                       (files (wld s))))
                     \<and> (\<forall>as' s'. run env as' s1 = Some s' \<longrightarrow>
                            ret (calls s' ! t) = ret (calls s1 ! t))
                     \<and> (\<exists>s'. run env [Run t, Run t] s1 = Some s' \<and> pc (calls s' ! t) = Returned)))
         \<and> (pc (calls s ! t) = At_RLock \<and> \<not> writer (mutexes (wld s) (mut (calls s ! t)))
              \<and> \<not> waiting (mutexes (wld s) (mut (calls s ! t))) \<longrightarrow>
               (\<exists>s'. run env [Run t, Run t] s = Some s' \<and> pc (calls s' ! t) = Returned
                  \<and> ret (calls s' ! t) = None))"
proof -
  from run_coordinated [OF start_coordinated assms(1)]
  have co: "\<forall>c\<in>set (calls s). call_consistent (trace (wld s)) c" and mx: "mutex_inv s"
    by (simp_all add: coordinated_def)
  from co assms(2) have cc: "call_consistent (trace (wld s)) (calls s ! t)" by simp
  then have a: "(ok (calls s ! t) \<longrightarrow> ret (calls s ! t) = None)
         \<and> (ret (calls s ! t) \<noteq> None \<longrightarrow>
               \<not> ok (calls s ! t)
               \<and> (\<exists>m. Ev_Build (ref_of_call (calls s ! t)) m (ret (calls s ! t)) \<in> set (trace (wld s))))"
    by (auto simp: call_consistent_def has_built_def)
  have b: "\<not> ok (calls s ! t)
       \<and> (\<exists>s1. sys_step env (Run t) s = Some s1
             \<and> ret (calls s1 ! t)
                 = (case first_match env (ref_of_call (calls s ! t)) (rules_l (calls s ! t)) of
                      None \<Rightarrow> None
                    | Some r \<Rightarrow>
                        fst (Build env (image_b (handler s)) (ref_of_call (calls s ! t))
                               (fst (Match env r (ref_of_call (calls s ! t))))
                               (files (wld s))))
             \<and> (\<forall>as' s'. run env as' s1 = Some s' \<longrightarrow>
                    ret (calls s' ! t) = ret (calls s1 ! t))
             \<and> (\<exists>s'. run env [Run t, Run t] s1 = Some s' \<and> pc (calls s' ! t) = Returned))"
    if l: "pc (calls s ! t) = At_Loop"
  proof -
    from cc l have nok: "\<not> ok (calls s ! t)"
      by (simp add: call_consistent_def in_section_def)
    from mx assms(2) l have w: "writer (mutexes (wld s) (mut (calls s ! t)))"
      by (simp add: mutex_inv_def holds_lock_def)
    from loop_step [OF assms(2) l, of env] obtain s1 where
      st: "sys_step env (Run t) s = Some s1" and t1: "t < length (calls s1)"
      and p1: "pc (calls s1 ! t) = At_Delete"
      and m1: "mut (calls s1 ! t) = mut (calls s ! t)" "mutexes (wld s1) = mutexes (wld s)"
      and r1: "ret (calls s1 ! t)
                 = (case first_match env (ref_of_call (calls s ! t)) (rules_l (calls s ! t)) of
                      None \<Rightarrow> None
                    | Some r \<Rightarrow>
                        fst (Build env (image_b (handler s)) (ref_of_call (calls s ! t))
                               (fst (Match env r (ref_of_call (calls s ! t))))
                               (files (wld s))))"
      by blast
    from p1 have k: "pc (calls s1 ! t) = At_Delete \<or> pc (calls s1 ! t) = At_Unlock
        \<or> pc (calls s1 ! t) = Returned" by simp
    have kept: "\<forall>as' s'. run env as' s1 = Some s' \<longrightarrow> ret (calls s' ! t) = ret (calls s1 ! t)"
      using run_after_loop [OF _ t1 k] by blast
    from w m1 have "writer (mutexes (wld s1) (mut (calls s1 ! t)))" by simp
    from deferred_steps [OF t1 p1 this, of env]
    have "\<exists>s'. run env [Run t, Run t] s1 = Some s' \<and> pc (calls s' ! t) = Returned" .
    with nok st r1 kept show ?thesis by blast
  qed
  from a b waiter_returns [OF assms(2)] show ?thesis by blast
qed

lemma failing_state:
  "\<exists>s. run demo_env [Run 0, Run 0, Run 1, Run 0, Run 0] (two_calls failing_handler) = Some s
       \<and> calls s = [\<lparr>arg_image = ''app/foo'', arg_tag = ''v1'', pc = At_Loop, mut = 0, ok = False,
                      rules_l = [(1, ''app/'', ''fail'')], ret = None\<rparr>,
                    \<lparr>arg_image = ''app/foo'', arg_tag = ''v1'', pc = At_RLock, mut = 0, ok = True,
                      rules_l = [], ret = None\<rparr>]
       \<and> image_b (handler s) = ''cache'' \<and> files (wld s) = Map.empty"
  by (simp add: demo_defs step_defs)

theorem errors_only_to_builder_witness:
  "\<exists>s. run demo_env [Run 0, Run 0, Run 1, Run 0, Run 0] (two_calls failing_handler) = Some s
       \<and> map pc (calls s) = [At_Loop, At_RLock]
       \<and> ok (calls s ! 1) \<and> ret (calls s ! 1) = None
       \<and> \<not> ok (calls s ! 0)
       \<and> (\<exists>s1. sys_step demo_env (Run 0) s = Some s1
             \<and> ret (calls s1 ! 0) = Some (Error ''build failed'')
             \<and> (\<forall>as' s'. run demo_env as' s1 = Some s' \<longrightarrow>
                    ret (calls s' ! 0) = Some (Error ''build failed''))
             \<and> (\<exists>s'. run demo_env [Run 0, Run 0] s1 = Some s' \<and> pc (calls s' ! 0) = Returned))
       \<and> map_option observe
           (run demo_env [Run 0, Run 0, Run 1, Run 0, Run 0, Run 0, Run 0, Run 0, Run 1, Run 1]
              (two_calls failing_handler))
         = Some ([Returned, Returned], [Some (Error ''build failed''), None],
                 [(''app/foo:v1'', ''fail'')])"
proof -
  from failing_state obtain s where
    r: "run demo_env [Run 0, Run 0, Run 1, Run 0, Run 0] (two_calls failing_handler) = Some s"
    and c: "calls s = [\<lparr>arg_image = ''app/foo'', arg_tag = ''v1'', pc = At_Loop, mut = 0, ok = False,
                      rules_l = [(1, ''app/'', ''fail'')], ret = None\<rparr>,
                    \<lparr>arg_image = ''app/foo'', arg_tag = ''v1'', pc = At_RLock, mut = 0, ok = True,
                      rules_l = [], ret = None\<rparr>]"
    and h: "image_b (handler s) = ''cache''" "files (wld s) = Map.empty"
    by blast
  from c have t: "0 < length (calls s)" "1 < length (calls s)" by simp_all
  from c have p: "map pc (calls s) = [At_Loop, At_RLock]" "ok (calls s ! 1)"
    "pc (calls s ! 0) = At_Loop" by simp_all
  have e: "(case first_match demo_env (ref_of_call (calls s ! 0)) (rules_l (calls s ! 0)) of
              None \<Rightarrow> None
            | Some r \<Rightarrow>
                fst (Build demo_env (image_b (handler s)) (ref_of_call (calls s ! 0))
                       (fst (Match demo_env r (ref_of_call (calls s ! 0)))) (files (wld s))))
          = Some (Error ''build failed'')"
    unfolding c h by (simp add: first_match_def ref_of_call_def demo_defs ref_of_def strings_HasPrefix_def)
  from errors_only_to_builder [OF r [unfolded two_calls_def] t(2)] p(2)
  have a: "ret (calls s ! 1) = None" by blast
  from errors_only_to_builder [OF r [unfolded two_calls_def] t(1)] p(3)
  have b: "\<not> ok (calls s ! 0)"
    and d: "\<exists>s1. sys_step demo_env (Run 0) s = Some s1
             \<and> ret (calls s1 ! 0) = Some (Error ''build failed'')
             \<and> (\<forall>as' s'. run demo_env as' s1 = Some s' \<longrightarrow>
                    ret (calls s' ! 0) = Some (Error ''build failed''))
             \<and> (\<exists>s'. run demo_env [Run 0, Run 0] s1 = Some s' \<and> pc (calls s' ! 0) = Returned)"
    unfolding e by metis+
  have f: "map_option observe
           (run demo_env [Run 0, Run 0, Run 1, Run 0, Run 0, Run 0, Run 0, Run 0, Run 1, Run 1]
              (two_calls failing_handler))
         = Some ([Returned, Returned], [Some (Error ''build failed''), None],
                 [(''app/foo:v1'', ''fail'')])"
    by (simp add: demo_defs step_defs)
  show ?thesis
    by (rule exI [of _ s]) (intro conjI r p(1) p(2) a b d f)
qed

subsection \<open>Single flight\<close>

text \<open>
  C1 as stated fails, in three runs of two calls for the same reference that have both
  entered \<open>build\<close>. First run: the first call stores the entry; before it calls
  \<^verbatim>\<open>Lock\<close> the second call finds the entry, takes the shared lock at once and returns,
  with no \<open>Build\<close> started. Second run: the first call runs to its return and deletes
  the entry, then the second call stores a new entry and builds again: two calls of
  \<open>Build\<close>. Third run: no rule matches the reference, and no \<open>Build\<close> is called.
\<close>

theorem single_flight_counterexample:
  "map_option observe (run demo_env [Run 0, Run 1, Run 1, Run 1] (two_calls demo_handler))
     = Some ([At_Lock, Returned], [None, None], [])
   \<and> map_option observe
       (run demo_env [Run 0, Run 0, Run 0, Run 0, Run 0, Run 0, Run 0,
                      Run 1, Run 1, Run 1, Run 1, Run 1, Run 1, Run 1]
          (two_calls demo_handler))
     = Some ([Returned, Returned], [None, None], [(''app/foo:v1'', ''M''), (''app/foo:v1'', ''M'')])
   \<and> map_option observe
       (run demo_env [Run 0, Run 0, Run 0, Run 0, Run 0, Run 0, Run 0,
                      Run 1, Run 1, Run 1, Run 1, Run 1, Run 1, Run 1]
          (start_calls demo_handler demo_world [(''lib/x'', ''v1''), (''lib/x'', ''v1'')]))
     = Some ([Returned, Returned], [None, None], [])"
  by (simp add: demo_defs step_defs)

lemma sys_step_builds:
  assumes "\<forall>c\<in>set (calls s). call_consistent (trace (wld s)) c"
    and "sys_step env a s = Some s'"
  shows "builds (trace (wld s'))
      = builds (trace (wld s))
        @ (case a of
             Run t \<Rightarrow> if pc (calls s ! t) = At_Loop then made_by env (calls s' ! t) else []
           | Reset \<Rightarrow> []
           | Informer objs \<Rightarrow> [])"
proof (cases a)
  case (Run t)
  with assms(2) obtain c1 h1 wd1 where t: "t < length (calls s)"
    and st: "call_step env (calls s ! t) (handler s) (wld s) = Some (c1, h1, wd1)"
    and s': "s' = \<lparr>handler = h1, wld = wd1, calls = (calls s)[t := c1]\<rparr>"
    by (auto simp: sys_step_def split: if_splits option.splits)
  from assms(1) t have "call_consistent (trace (wld s)) (calls s ! t)" by simp
  from call_step_builds [OF st this] t Run show ?thesis
    unfolding s' by simp
next
  case Reset
  with assms(2) show ?thesis by (auto simp: sys_step_def)
next
  case (Informer objs)
  with assms(2) show ?thesis by (auto simp: sys_step_def split: if_splits)
qed

text \<open>
  C1 (as amended). Whatever the schedule of the goroutines, from any number of calls that
  have just entered \<open>build\<close>, at any time:
  \<^item> no two calls with the same reference stand between the \<^verbatim>\<open>LoadOrStore\<close> that
    stored the entry and its \<^verbatim>\<open>Delete\<close>, where \<open>Build\<close> is called, so the builds of
    one reference never overlap;
  \<^item> the calls of \<open>Build\<close> so far are those of the start and, for each call of
    \<open>build\<close> that stored an entry and is past its loop, exactly one if a rule of the
    list it got matches its reference (with the mutation of the first such rule) and
    none if no rule matches; a call that found the entry has made none;
  \<^item> the only step that calls \<open>Build\<close> is the step of a call through its loop, and a
    call that stands before its loop stored the entry;
  \<^item> while a call waits inside \<^verbatim>\<open>Lock\<close> or holds its mutex exclusively, a call that
    stands before \<^verbatim>\<open>RLock\<close> on that mutex cannot take its step.
\<close>

theorem builds_never_overlap:
  assumes "run env as (start_calls h wd reqs) = Some s"
  shows "(\<forall>t<length (calls s). \<forall>u<length (calls s).
            in_section (calls s ! t) \<and> in_section (calls s ! u)
            \<and> ref_of_call (calls s ! t) = ref_of_call (calls s ! u) \<longrightarrow> t = u)
         \<and> mset (builds (trace (wld s)))
             = mset (builds (trace wd)) + mset (concat (map (made_by env) (calls s)))
         \<and> (\<forall>a s'. sys_step env a s = Some s' \<longrightarrow>
               builds (trace (wld s'))
                 = builds (trace (wld s))
                   @ (case a of
                        Run t \<Rightarrow>
                          if pc (calls s ! t) = At_Loop then made_by env (calls s' ! t) else []
                      | Reset \<Rightarrow> []
                      | Informer objs \<Rightarrow> []))
         \<and> (\<forall>t<length (calls s). pc (calls s ! t) = At_Loop \<longrightarrow> \<not> ok (calls s ! t))
         \<and> (\<forall>t<length (calls s). \<forall>u<length (calls s).
              (pc (calls s ! t) = In_Lock \<or> holds_lock (calls s ! t))
              \<and> pc (calls s ! u) = At_RLock
              \<and> mut (calls s ! u) = mut (calls s ! t) \<longrightarrow> sys_step env (Run u) s = None)"
proof -
  from run_coordinated [OF start_coordinated assms]
  have co: "\<forall>c\<in>set (calls s). call_consistent (trace (wld s)) c"
    and reg: "registry_inv s" and mx: "mutex_inv s"
    and cnt: "builds_inv env (builds (trace wd)) s"
    by (simp_all add: coordinated_def)
  have step: "\<forall>a s'. sys_step env a s = Some s' \<longrightarrow>
               builds (trace (wld s'))
                 = builds (trace (wld s))
                   @ (case a of
                        Run t \<Rightarrow>
                          if pc (calls s ! t) = At_Loop then made_by env (calls s' ! t) else []
                      | Reset \<Rightarrow> []
                      | Informer objs \<Rightarrow> [])"
    using sys_step_builds [OF co] by blast
  have stored: "\<forall>t<length (calls s). pc (calls s ! t) = At_Loop \<longrightarrow> \<not> ok (calls s ! t)"
    using co by (auto simp: call_consistent_def in_section_def)
  have blocked: "sys_step env (Run u) s = None"
    if "t < length (calls s)" "u < length (calls s)"
      "pc (calls s ! t) = In_Lock \<or> holds_lock (calls s ! t)"
      "pc (calls s ! u) = At_RLock" "mut (calls s ! u) = mut (calls s ! t)" for t u
  proof -
    from mx that(1,3) have "writer (mutexes (wld s) (mut (calls s ! t)))
        \<or> waiting (mutexes (wld s) (mut (calls s ! t)))"
      by (auto simp: mutex_inv_def)
    with that(2,4,5) show ?thesis
      by (auto simp: sys_step_def call_step_def rw_RLock_def)
  qed
  from reg have excl: "\<forall>t<length (calls s). \<forall>u<length (calls s).
            in_section (calls s ! t) \<and> in_section (calls s ! u)
            \<and> ref_of_call (calls s ! t) = ref_of_call (calls s ! u) \<longrightarrow> t = u"
    by (simp add: registry_inv_def)
  from blocked have bl: "\<forall>t<length (calls s). \<forall>u<length (calls s).
              (pc (calls s ! t) = In_Lock \<or> holds_lock (calls s ! t))
              \<and> pc (calls s ! u) = At_RLock
              \<and> mut (calls s ! u) = mut (calls s ! t) \<longrightarrow> sys_step env (Run u) s = None"
    by blast
  from excl cnt [unfolded builds_inv_def] step stored bl show ?thesis
    by (intro conjI)
qed

lemma blocked_run:
  "\<exists>s. run demo_env [Run 0, Run 0, Run 1, Run 0, Run 0] (two_calls demo_handler) = Some s
       \<and> length (calls s) = 2
       \<and> observe s = ([At_Loop, At_RLock], [None, None], [])
       \<and> holds_lock (calls s ! 0) \<and> pc (calls s ! 1) = At_RLock
       \<and> mut (calls s ! 1) = mut (calls s ! 0)"
  by (simp add: demo_defs step_defs holds_lock_def)

lemma finished_run:
  "\<exists>s. run demo_env [Run 0, Run 0, Run 1, Run 0, Run 0, Run 0, Run 0, Run 0, Run 1, Run 1]
          (two_calls demo_handler) = Some s
       \<and> observe s = ([Returned, Returned], [None, None], [(''app/foo:v1'', ''M'')])
       \<and> made_by demo_env (calls s ! 0) = [(''app/foo:v1'', ''M'')]
       \<and> made_by demo_env (calls s ! 1) = []
       \<and> length (calls s) = 2"
  by (simp add: demo_defs step_defs made_by_def has_built_def first_match_def ref_of_call_def)

theorem builds_never_overlap_witness:
  "\<exists>s s2. run demo_env [Run 0, Run 0, Run 1, Run 0, Run 0] (two_calls demo_handler) = Some s
       \<and> length (calls s) = 2
       \<and> observe s = ([At_Loop, At_RLock], [None, None], [])
       \<and> holds_lock (calls s ! 0) \<and> pc (calls s ! 1) = At_RLock
       \<and> mut (calls s ! 1) = mut (calls s ! 0)
       \<and> sys_step demo_env (Run 1) s = None
       \<and> run demo_env [Run 0, Run 0, Run 1, Run 0, Run 0, Run 0, Run 0, Run 0, Run 1, Run 1]
            (two_calls demo_handler) = Some s2
       \<and> observe s2 = ([Returned, Returned], [None, None], [(''app/foo:v1'', ''M'')])
       \<and> made_by demo_env (calls s2 ! 0) = [(''app/foo:v1'', ''M'')]
       \<and> made_by demo_env (calls s2 ! 1) = []
       \<and> length (calls s2) = 2
       \<and> mset (builds (trace (wld s2))) = mset (concat (map (made_by demo_env) (calls s2)))"
proof -
  from blocked_run obtain s where
    r: "run demo_env [Run 0, Run 0, Run 1, Run 0, Run 0] (two_calls demo_handler) = Some s"
    and l: "length (calls s) = 2"
    and o: "observe s = ([At_Loop, At_RLock], [None, None], [])"
    and k: "holds_lock (calls s ! 0)" "pc (calls s ! 1) = At_RLock"
      "mut (calls s ! 1) = mut (calls s ! 0)"
    by blast
  from finished_run obtain s2 where
    r2: "run demo_env [Run 0, Run 0, Run 1, Run 0, Run 0, Run 0, Run 0, Run 0, Run 1, Run 1]
          (two_calls demo_handler) = Some s2"
    and o2: "observe s2 = ([Returned, Returned], [None, None], [(''app/foo:v1'', ''M'')])"
    and m2: "made_by demo_env (calls s2 ! 0) = [(''app/foo:v1'', ''M'')]"
      "made_by demo_env (calls s2 ! 1) = []" "length (calls s2) = 2"
    by (elim exE conjE) (rule that; assumption)
  from l have t: "0 < length (calls s)" "1 < length (calls s)" by simp_all
  from builds_never_overlap [OF r [unfolded two_calls_def]] t k
  have b: "sys_step demo_env (Run 1) s = None" by blast
  from builds_never_overlap [OF r2 [unfolded two_calls_def]]
  have "mset (builds (trace (wld s2)))
      = mset (builds (trace demo_world)) + mset (concat (map (made_by demo_env) (calls s2)))"
    by (rule conjunct2 [THEN conjunct1])
  then have c: "mset (builds (trace (wld s2))) = mset (concat (map (made_by demo_env) (calls s2)))"
    by (simp add: demo_world_def)
  show ?thesis
    by (rule exI [of _ s], rule exI [of _ s2]) (intro conjI r l o k b r2 o2 m2 c)
qed

end
